theory Spec2Isabelle
  imports Complex_Main "HOL-Library.Word"
begin

unbundle bit_operations_syntax

section \<open>Configuration and data model of the audio bridge (render\_lsl\_audio.cpp)\<close>

text \<open>
  The C++ \<open>int\<close> globals are modelled as \<open>int\<close>. Both ring indices are only ever assigned
  \<open>0\<close> or a value masked with \<open>bufferMask\<close>, so in every state the program reaches they lie in
  \<open>[0, 8192)\<close> and no 32-bit computation on them overflows; statements that depend on this
  carry the range as a hypothesis. \<open>float\<close> samples and \<open>double\<close> rates are modelled as
  \<open>real\<close>: samples are only copied, never computed with. The one \<open>float\<close> that is
  computed from a \<open>double\<close>, \<open>audioSampleRate\<close>, is kept as the double it was rounded from.
\<close>

definition AUDIO_STREAM_NAME :: string where
  "AUDIO_STREAM_NAME = ''audio''"

definition AUDIO_BUFFER_FRAMES :: int where
  "AUDIO_BUFFER_FRAMES = 8192"

definition MAX_CHANNELS :: int where
  "MAX_CHANNELS = 8"

text \<open>Sizes of the three fixed global arrays (lines 28-30).\<close>

definition AUDIO_BUFFER_SIZE :: int where
  "AUDIO_BUFFER_SIZE = AUDIO_BUFFER_FRAMES * MAX_CHANNELS"

definition PULL_BUFFER_SIZE :: int where
  "PULL_BUFFER_SIZE = 1024 * MAX_CHANNELS"

definition TIMESTAMP_BUFFER_SIZE :: int where
  "TIMESTAMP_BUFFER_SIZE = 1024"

text \<open>\<open>bufferMask\<close> is a global that is initialised once and never assigned again.\<close>

definition bufferMask :: int where
  "bufferMask = AUDIO_BUFFER_FRAMES - 1"

text \<open>
  Exceptions of the transport (all derive from \<open>std::exception\<close>; render.cpp tells
  \<open>lsl::lost_error\<close> apart from the rest), and the ways a run can leave defined behaviour.
\<close>

datatype exn = LostError | OtherException

text \<open>A \<open>float\<close> obtained by converting a \<open>double\<close>: the nearest \<open>float\<close> to that double.\<close>

datatype float32 = FloatOf real

datatype error = Exception exn | OutOfBounds | BadPointer

record stream_info =
  name :: string
  nominal_srate :: real
  channel_count :: int

text \<open>
  The \<open>audioInlet\<close> pointer: null, pointing to a live inlet, or left pointing to an inlet
  that has been deleted (line 135 deletes without clearing the pointer).
\<close>

datatype inlet_ptr = Null | Live stream_info | Dangling

text \<open>Everything the code does to the outside world: console lines, transport calls, audio writes.\<close>

datatype event =
    Printf_NoStreams
  | Printf_InvalidChannels int int
  | Printf_Connected int float32
  | Printf_CreateError exn
  | Printf_RateMismatch real real
  | Printf_FillError exn
  | Printf_BufferReport int int
  | CloseStream
  | DeleteInlet
  | NewInlet stream_info
  | OpenStream stream_info
  | AudioWrite nat nat real
  | Printf_Sample string "real list" real
  | Printf_StreamLost string
  | Printf_PullError string
  | Printf_AllLost

record state =
  resolver :: bool
  audioStreamActive :: bool
  audioInlet :: inlet_ptr
  audioSampleRate :: float32
  audioChannels :: int
  belaSampleRate :: real
  audioBuffer :: "int \<Rightarrow> real"
  pullBuffer :: "int \<Rightarrow> real"
  timestampBuffer :: "int \<Rightarrow> real"
  readPos :: int
  writePos :: int
  reportCounter :: int

text \<open>
  A C array is a function from indices to elements together with its declared size; an
  access outside \<open>[0, size)\<close> is undefined behaviour and is reported as \<open>OutOfBounds\<close>.
\<close>

definition array_read :: "int \<Rightarrow> (int \<Rightarrow> 'a) \<Rightarrow> int \<Rightarrow> error + 'a" where
  "array_read sz a i = (if 0 \<le> i \<and> i < sz then Inr (a i) else Inl OutOfBounds)"

definition array_write :: "int \<Rightarrow> (int \<Rightarrow> 'a) \<Rightarrow> int \<Rightarrow> 'a \<Rightarrow> error + (int \<Rightarrow> 'a)" where
  "array_write sz a i v = (if 0 \<le> i \<and> i < sz then Inr (a(i := v)) else Inl OutOfBounds)"

text \<open>Writing a block \<open>xs\<close> at the start of an array, as the transport does with its output buffers.\<close>

definition array_store :: "int \<Rightarrow> (int \<Rightarrow> 'a) \<Rightarrow> 'a list \<Rightarrow> error + (int \<Rightarrow> 'a)" where
  "array_store sz a xs =
     (if int (length xs) \<le> sz
      then Inr (\<lambda>i. if 0 \<le> i \<and> i < int (length xs) then xs ! nat i else a i)
      else Inl OutOfBounds)"

section \<open>Channel frame buffer: occupancy and write space\<close>

text \<open>\<open>samplesAvailable\<close>, lines 46-51.\<close>

definition samplesAvailable :: "state \<Rightarrow> int" where
  "samplesAvailable s =
     (if \<not> audioStreamActive s then 0
      else let available = writePos s - readPos s
           in if available < 0 then available + AUDIO_BUFFER_FRAMES else available)"

text \<open>The write-space computation of the fill task, lines 60-62.\<close>

definition writeSpace :: "state \<Rightarrow> int" where
  "writeSpace s =
     (let readPosSnapshot = readPos s;
          available = readPosSnapshot - writePos s - 1
      in if available \<le> 0 then available + AUDIO_BUFFER_FRAMES else available)"

text \<open>Line 65.\<close>

definition maxFramesToPull :: "state \<Rightarrow> int" where
  "maxFramesToPull s = min 512 (writeSpace s)"

section \<open>Fill task\<close>

text \<open>The inner loop of lines 85-87: copy channel \<open>ch\<close>, \<open>ch + 1\<close>, ... of one frame.\<close>

function copyChannels ::
  "int \<Rightarrow> int \<Rightarrow> int \<Rightarrow> int \<Rightarrow> (int \<Rightarrow> real) \<Rightarrow> (int \<Rightarrow> real) \<Rightarrow> error + (int \<Rightarrow> real)" where
  "copyChannels ch K bufferIndex pullIndex pb ab =
     (if ch < K then
        (case array_read PULL_BUFFER_SIZE pb (pullIndex + ch) of
           Inl e \<Rightarrow> Inl e
         | Inr v \<Rightarrow>
            (case array_write AUDIO_BUFFER_SIZE ab (bufferIndex + ch) v of
               Inl e \<Rightarrow> Inl e
             | Inr ab' \<Rightarrow> copyChannels (ch + 1) K bufferIndex pullIndex pb ab'))
      else Inr ab)"
  by pat_completeness auto
termination
  by (relation "measure (\<lambda>(ch, K, _). nat (K - ch))") auto

text \<open>
  The body of the frame loop, lines 81-89: frame \<open>f\<close> of the pull buffer goes into the slot
  at \<open>writePos\<close>, then \<open>writePos\<close> advances. This is the spec's \<open>pushFrame\<close>; it makes no
  check of its own against \<open>readPos\<close>.
\<close>

definition pushFrame :: "int \<Rightarrow> state \<Rightarrow> error + state" where
  "pushFrame f s =
     (let bufferIndex = (writePos s AND bufferMask) * audioChannels s;
          pullIndex = f * audioChannels s
      in case copyChannels 0 (audioChannels s) bufferIndex pullIndex (pullBuffer s) (audioBuffer s) of
           Inl e \<Rightarrow> Inl e
         | Inr ab \<Rightarrow> Inr (s\<lparr>audioBuffer := ab, writePos := (writePos s + 1) AND bufferMask\<rparr>))"

text \<open>The frame loop of lines 80-90.\<close>

function copyFrames :: "int \<Rightarrow> int \<Rightarrow> state \<Rightarrow> error + state" where
  "copyFrames f framesPulled s =
     (if f < framesPulled then
        (case pushFrame f s of
           Inl e \<Rightarrow> Inl e
         | Inr s' \<Rightarrow> copyFrames (f + 1) framesPulled s')
      else Inr s)"
  by pat_completeness auto
termination
  by (relation "measure (\<lambda>(f, framesPulled, _). nat (framesPulled - f))") auto

text \<open>
  What the transport answers to one pull: the interleaved samples and the timestamps it has
  ready, or an exception.
\<close>

datatype pull_outcome = Pulled "real list" "real list" | PullThrows exn

text \<open>
  Modelled from the spec: the transport's \<open>pull_chunk_multiplexed\<close> is not part of the
  repository. Following "pull up to N frames, non-blocking ... returning actual frames pulled
  plus per-frame timestamps, which may signal ... a distinct source permanently lost
  condition", it writes at most \<open>data_len\<close> samples and at most \<open>ts_len\<close> timestamps at the
  start of the two buffers it is handed and returns the number of samples written, or throws
  before writing anything. Calling it through a null or deleted inlet is undefined behaviour.
\<close>

definition pull_chunk_multiplexed ::
  "pull_outcome \<Rightarrow> int \<Rightarrow> int \<Rightarrow> state \<Rightarrow> error + (int \<times> state)" where
  "pull_chunk_multiplexed pull data_len ts_len s =
     (case audioInlet s of
        Null \<Rightarrow> Inl BadPointer
      | Dangling \<Rightarrow> Inl BadPointer
      | Live info \<Rightarrow>
         (case pull of
            PullThrows e \<Rightarrow> Inl (Exception e)
          | Pulled samples stamps \<Rightarrow>
             (case array_store PULL_BUFFER_SIZE (pullBuffer s) (take (nat data_len) samples) of
                Inl e \<Rightarrow> Inl e
              | Inr pb \<Rightarrow>
                 (case array_store TIMESTAMP_BUFFER_SIZE (timestampBuffer s) (take (nat ts_len) stamps) of
                    Inl e \<Rightarrow> Inl e
                  | Inr tb \<Rightarrow>
                     Inr (int (length (take (nat data_len) samples)),
                          s\<lparr>pullBuffer := pb, timestampBuffer := tb\<rparr>)))))"

text \<open>
  The \<open>try\<close> block of \<open>fillAudioBuffer\<close>, lines 59-97. The only call that can throw is the
  pull, and nothing has been assigned before it.
\<close>

definition fillBody :: "pull_outcome \<Rightarrow> state \<Rightarrow> error + (event list \<times> state)" where
  "fillBody pull s =
     (if maxFramesToPull s \<le> 0 then Inr ([], s)
      else
        case pull_chunk_multiplexed pull (maxFramesToPull s * audioChannels s) (maxFramesToPull s) s of
          Inl e \<Rightarrow> Inl e
        | Inr (samples_read, s1) \<Rightarrow>
           (let framesPulled = samples_read div audioChannels s1
            in if framesPulled > 0 then
                 (case copyFrames 0 framesPulled s1 of
                    Inl e \<Rightarrow> Inl e
                  | Inr s2 \<Rightarrow>
                     (let s3 = s2\<lparr>reportCounter := reportCounter s2 + 1\<rparr>
                      in Inr (if reportCounter s3 mod 1000 = 0
                              then [Printf_BufferReport (samplesAvailable s3) AUDIO_BUFFER_FRAMES]
                              else [],
                              s3)))
               else Inr ([], s1)))"

text \<open>\<open>fillAudioBuffer\<close>, lines 54-102: the entry guard, the \<open>try\<close> block and its handler.\<close>

definition fillAudioBuffer :: "pull_outcome \<Rightarrow> state \<Rightarrow> error + (event list \<times> state)" where
  "fillAudioBuffer pull s =
     (if \<not> audioStreamActive s \<or> audioInlet s = Null \<or> audioChannels s \<le> 0
         \<or> audioChannels s > MAX_CHANNELS
      then Inr ([], s)
      else
        case fillBody pull s of
          Inl (Exception e) \<Rightarrow> Inr ([Printf_FillError e], s\<lparr>audioStreamActive := False\<rparr>)
        | Inl e \<Rightarrow> Inl e
        | Inr r \<Rightarrow> Inr r)"

section \<open>Render step\<close>

text \<open>The part of \<open>BelaContext\<close> that the output loop reads; both fields are \<open>unsigned int\<close>.\<close>

record BelaContext =
  audioFrames :: nat
  audioOutChannels :: nat

text \<open>The conversion \<open>(unsigned int)audioChannels\<close>.\<close>

definition to_unsigned :: "int \<Rightarrow> nat" where
  "to_unsigned x = nat (x mod 4294967296)"

text \<open>
  The channel loop of lines 206-208. The index \<open>bufferIndex + ch\<close> mixes \<open>int\<close> and
  \<open>unsigned int\<close>, so it is computed modulo \<open>2 ^ 32\<close>.
\<close>

function writeChannels ::
  "nat \<Rightarrow> nat \<Rightarrow> nat \<Rightarrow> int \<Rightarrow> (int \<Rightarrow> real) \<Rightarrow> error + event list" where
  "writeChannels n ch bound bufferIndex ab =
     (if ch < bound then
        (case array_read AUDIO_BUFFER_SIZE ab ((bufferIndex + int ch) mod 4294967296) of
           Inl e \<Rightarrow> Inl e
         | Inr v \<Rightarrow>
            (case writeChannels n (ch + 1) bound bufferIndex ab of
               Inl e \<Rightarrow> Inl e
             | Inr evs \<Rightarrow> Inr (AudioWrite n ch v # evs)))
      else Inr [])"
  by pat_completeness auto
termination
  by (relation "measure (\<lambda>(n, ch, bound, _). bound - ch)") auto

text \<open>The silence loop of lines 214-216.\<close>

function silenceChannels :: "nat \<Rightarrow> nat \<Rightarrow> nat \<Rightarrow> event list" where
  "silenceChannels n ch bound =
     (if ch < bound then AudioWrite n ch 0 # silenceChannels n (ch + 1) bound else [])"
  by pat_completeness auto
termination
  by (relation "measure (\<lambda>(n, ch, bound). bound - ch)") auto

text \<open>One iteration of the output loop, lines 201-217, for output frame \<open>n\<close>.\<close>

definition render_frame :: "BelaContext \<Rightarrow> nat \<Rightarrow> state \<Rightarrow> error + (event list \<times> state)" where
  "render_frame ctx n s =
     (if audioStreamActive s \<and> samplesAvailable s > 0 then
        (let bufferIndex = (readPos s AND bufferMask) * audioChannels s
         in case writeChannels n 0 (min (to_unsigned (audioChannels s)) (audioOutChannels ctx))
                   bufferIndex (audioBuffer s) of
              Inl e \<Rightarrow> Inl e
            | Inr evs \<Rightarrow> Inr (evs, s\<lparr>readPos := (readPos s + 1) AND bufferMask\<rparr>))
      else Inr (silenceChannels n 0 (audioOutChannels ctx), s))"

text \<open>
  The output loop of \<open>render\<close>, lines 200-218, from frame \<open>n\<close> on. The scheduling prologue
  of \<open>render\<close> (lines 185-197) enqueues the two background tasks and touches none of the
  globals below; it is not modelled, and neither is the zero modulus it computes at line 187
  when \<open>audioFrames\<close> exceeds half the sample rate.
\<close>

function renderLoop :: "BelaContext \<Rightarrow> nat \<Rightarrow> state \<Rightarrow> error + (event list \<times> state)" where
  "renderLoop ctx n s =
     (if n < audioFrames ctx then
        (case render_frame ctx n s of
           Inl e \<Rightarrow> Inl e
         | Inr (evs, s') \<Rightarrow>
            (case renderLoop ctx (n + 1) s' of
               Inl e \<Rightarrow> Inl e
             | Inr (evs', s'') \<Rightarrow> Inr (evs @ evs', s'')))
      else Inr ([], s))"
  by pat_completeness auto
termination
  by (relation "measure (\<lambda>(ctx, n, _). audioFrames ctx - n)") auto

section \<open>Discovery loop\<close>

text \<open>The rate test of line 121, over the reals.\<close>

definition rateCompatible :: "stream_info \<Rightarrow> state \<Rightarrow> bool" where
  "rateCompatible info s =
     (\<bar>nominal_srate info - belaSampleRate s\<bar> < belaSampleRate s * 0.001)"

text \<open>
  Modelled from the spec: the transport's inlet constructor and \<open>open_stream\<close> are not part
  of the repository. Following "an open connection to source call ... which may fail", the
  environment decides for each advertised source whether creating the inlet throws, opening
  it throws, or both succeed.
\<close>

datatype open_outcome = Opened | NewThrows exn | OpenStreamThrows exn

datatype loop_ctl = Continue | Break

text \<open>Lines 133-136: close and delete the previous inlet; the pointer is not cleared.\<close>

definition releaseInlet :: "state \<Rightarrow> error + (event list \<times> state)" where
  "releaseInlet s =
     (case audioInlet s of
        Null \<Rightarrow> Inr ([], s)
      | Live old \<Rightarrow> Inr ([CloseStream, DeleteInlet], s\<lparr>audioInlet := Dangling\<rparr>)
      | Dangling \<Rightarrow> Inl BadPointer)"

text \<open>
  Lines 122-153 for one name-matching, rate-compatible candidate: the \<open>try\<close> block, its
  handler, and whether the candidate loop goes on (\<open>continue\<close>, line 127) or stops
  (\<open>break\<close>, line 153, reached after both success and a caught exception).
\<close>

definition connectCandidate ::
  "(stream_info \<Rightarrow> open_outcome) \<Rightarrow> stream_info \<Rightarrow> state \<Rightarrow> error + (event list \<times> state \<times> loop_ctl)" where
  "connectCandidate lsl info s =
     (let s1 = s\<lparr>audioChannels := channel_count info\<rparr>
      in if audioChannels s1 \<le> 0 \<or> audioChannels s1 > MAX_CHANNELS then
           Inr ([Printf_InvalidChannels (audioChannels s1) MAX_CHANNELS], s1, Continue)
         else
           (let s2 = s1\<lparr>audioSampleRate := FloatOf (nominal_srate info)\<rparr>
            in case releaseInlet s2 of
                 Inl e \<Rightarrow> Inl e
               | Inr (evs, s3) \<Rightarrow>
                  (case lsl info of
                     NewThrows e \<Rightarrow>
                       Inr (evs @ [NewInlet info, Printf_CreateError e], s3, Break)
                   | OpenStreamThrows e \<Rightarrow>
                       Inr (evs @ [NewInlet info, OpenStream info, Printf_CreateError e],
                            s3\<lparr>audioInlet := Live info\<rparr>, Break)
                   | Opened \<Rightarrow>
                       Inr (evs @ [NewInlet info, OpenStream info,
                                   Printf_Connected (audioChannels s3) (audioSampleRate s3)],
                            s3\<lparr>audioInlet := Live info, readPos := 0, writePos := 0,
                               audioStreamActive := True\<rparr>,
                            Break))))"

text \<open>The candidate loop of lines 118-159.\<close>

fun resolveLoop ::
  "(stream_info \<Rightarrow> open_outcome) \<Rightarrow> stream_info list \<Rightarrow> state \<Rightarrow> error + (event list \<times> state)" where
  "resolveLoop lsl [] s = Inr ([], s)"
| "resolveLoop lsl (info # rest) s =
     (if name info = AUDIO_STREAM_NAME then
        (if rateCompatible info s then
           (case connectCandidate lsl info s of
              Inl e \<Rightarrow> Inl e
            | Inr (evs, s', ctl) \<Rightarrow>
               (case ctl of
                  Break \<Rightarrow> Inr (evs, s')
                | Continue \<Rightarrow>
                   (case resolveLoop lsl rest s' of
                      Inl e \<Rightarrow> Inl e
                    | Inr (evs', s'') \<Rightarrow> Inr (evs @ evs', s''))))
         else
           (case resolveLoop lsl rest s of
              Inl e \<Rightarrow> Inl e
            | Inr (evs', s'') \<Rightarrow>
               Inr (Printf_RateMismatch (nominal_srate info) (belaSampleRate s) # evs', s'')))
      else resolveLoop lsl rest s)"

text \<open>\<open>resolveStreams\<close>, lines 105-161; \<open>results\<close> is what \<open>resolver->results()\<close> returned.\<close>

definition resolveStreams ::
  "(stream_info \<Rightarrow> open_outcome) \<Rightarrow> stream_info list \<Rightarrow> state \<Rightarrow> error + (event list \<times> state)" where
  "resolveStreams lsl results s =
     (if \<not> resolver s then Inr ([], s)
      else if results = [] then Inr ([Printf_NoStreams], s)
      else if \<not> audioStreamActive s then resolveLoop lsl results s
      else Inr ([], s))"

section \<open>Sequences of buffer operations\<close>

text \<open>
  The spec's \<open>pushFrame(samples)\<close> on a given frame: the frame's samples are placed at the
  start of the pull buffer and the frame loop body runs for frame \<open>0\<close>. Like the loop body
  it has no guard of its own; the entry guard and the write-space cap are the caller's, and
  are applied by \<open>offerFrames\<close> and \<open>fillBatches\<close> below.
\<close>

definition pushSamples :: "real list \<Rightarrow> state \<Rightarrow> error + state" where
  "pushSamples fr s =
     (case array_store PULL_BUFFER_SIZE (pullBuffer s) fr of
        Inl e \<Rightarrow> Inl e
      | Inr pb \<Rightarrow> pushFrame 0 (s\<lparr>pullBuffer := pb\<rparr>))"

fun pushFrames :: "real list list \<Rightarrow> state \<Rightarrow> error + state" where
  "pushFrames [] s = Inr s"
| "pushFrames (fr # frs) s =
     (case pushSamples fr s of
        Inl e \<Rightarrow> Inl e
      | Inr s' \<Rightarrow> pushFrames frs s')"

text \<open>
  The writer offering frames one at a time under the fill task's own check of line 66: a frame
  is pushed only while \<open>maxFramesToPull\<close> is positive.
\<close>

fun offerFrames :: "real list list \<Rightarrow> state \<Rightarrow> error + state" where
  "offerFrames [] s = Inr s"
| "offerFrames (fr # frs) s =
     (if maxFramesToPull s \<le> 0 then Inr s
      else
        case pushSamples fr s of
          Inl e \<Rightarrow> Inl e
        | Inr s' \<Rightarrow> offerFrames frs s')"

text \<open>
  A run of writer and reader steps, one at a time. A \<open>Pop\<close> is one \<open>popFrame\<close>: an output
  tick of the render step, which returns a frame when it takes the branch that reads one and
  none when it plays silence. The result carries the number of pushes \<open>w\<close>, the number of
  pop operations \<open>r\<close>, the number \<open>k\<close> of those pops that returned a frame, and the final
  state.
\<close>

datatype buffer_op = Push "real list" | Pop

fun runOps ::
  "BelaContext \<Rightarrow> buffer_op list \<Rightarrow> state \<Rightarrow> error + (nat \<times> nat \<times> nat \<times> state)" where
  "runOps ctx [] s = Inr (0, 0, 0, s)"
| "runOps ctx (Push fr # ops) s =
     (case pushSamples fr s of
        Inl e \<Rightarrow> Inl e
      | Inr s' \<Rightarrow>
         (case runOps ctx ops s' of
            Inl e \<Rightarrow> Inl e
          | Inr (w, r, k, t) \<Rightarrow> Inr (w + 1, r, k, t)))"
| "runOps ctx (Pop # ops) s =
     (case render_frame ctx 0 s of
        Inl e \<Rightarrow> Inl e
      | Inr (evs, s') \<Rightarrow>
         (case runOps ctx ops s' of
            Inl e \<Rightarrow> Inl e
          | Inr (w, r, k, t) \<Rightarrow>
             Inr (w, r + 1,
                  (if audioStreamActive s \<and> samplesAvailable s > 0 then k + 1 else k), t)))"

text \<open>
  The writer as the program runs it: one fill invocation per batch of frames that the
  transport has ready, the pull delivering the batch's samples interleaved with one timestamp
  per frame. The fill applies its entry guard and its write-space cap to every batch.
\<close>

definition fillBatch :: "real list list \<Rightarrow> state \<Rightarrow> error + (event list \<times> state)" where
  "fillBatch batch s = fillAudioBuffer (Pulled (concat batch) (replicate (length batch) 0)) s"

fun fillBatches :: "real list list list \<Rightarrow> state \<Rightarrow> error + state" where
  "fillBatches [] s = Inr s"
| "fillBatches (batch # batches) s =
     (case fillBatch batch s of
        Inl e \<Rightarrow> Inl e
      | Inr (evs, s') \<Rightarrow> fillBatches batches s')"

text \<open>Filling from a list of batches, then running the output loop for one block.\<close>

definition roundTrip ::
  "BelaContext \<Rightarrow> real list list list \<Rightarrow> state \<Rightarrow> error + (event list \<times> state)" where
  "roundTrip ctx batches s =
     (case fillBatches batches s of
        Inl e \<Rightarrow> Inl e
      | Inr s' \<Rightarrow> renderLoop ctx 0 s')"

text \<open>The audio writes that output frame \<open>n\<close> makes when it plays the first \<open>m\<close> channels of \<open>fr\<close>.\<close>

definition frameWrites :: "nat \<Rightarrow> nat \<Rightarrow> real list \<Rightarrow> event list" where
  "frameWrites n m fr = map (\<lambda>ch. AudioWrite n ch (fr ! ch)) [0..<m]"

text \<open>
  The range invariant of the ring indices together with the fill task's entry conditions on
  the session.
\<close>

definition ring_ok :: "state \<Rightarrow> bool" where
  "ring_ok s \<longleftrightarrow>
     audioStreamActive s \<and> 0 < audioChannels s \<and> audioChannels s \<le> MAX_CHANNELS \<and>
     0 \<le> readPos s \<and> readPos s < AUDIO_BUFFER_FRAMES \<and>
     0 \<le> writePos s \<and> writePos s < AUDIO_BUFFER_FRAMES"

text \<open>
  What holds in every state the program reaches: the indices are in range, and an active
  session has a live inlet and a channel count the fill task accepts.
\<close>

definition session_inv :: "state \<Rightarrow> bool" where
  "session_inv s \<longleftrightarrow>
     0 \<le> readPos s \<and> readPos s < AUDIO_BUFFER_FRAMES \<and>
     0 \<le> writePos s \<and> writePos s < AUDIO_BUFFER_FRAMES \<and>
     (if audioStreamActive s
      then audioInlet s \<noteq> Null \<and> audioInlet s \<noteq> Dangling
           \<and> 0 < audioChannels s \<and> audioChannels s \<le> MAX_CHANNELS
      else True)"

text \<open>
  The frame stored in slot \<open>p\<close>, the queue of unread frames, oldest first, and the frame
  at index \<open>f\<close> of the pull buffer.
\<close>

definition slot :: "state \<Rightarrow> int \<Rightarrow> real list" where
  "slot s p = map (\<lambda>ch. audioBuffer s (p * audioChannels s + int ch)) [0..<nat (audioChannels s)]"

definition unread :: "state \<Rightarrow> real list list" where
  "unread s =
     map (\<lambda>j. slot s ((readPos s + int j) mod AUDIO_BUFFER_FRAMES)) [0..<nat (samplesAvailable s)]"

text \<open>An array in which the \<open>K\<close> cells of slot \<open>p\<close> hold \<open>src 0\<close>, ..., \<open>src (K - 1)\<close>.\<close>

definition pulled :: "state \<Rightarrow> int \<Rightarrow> real list" where
  "pulled s f = map (\<lambda>ch. pullBuffer s (f * audioChannels s + int ch)) [0..<nat (audioChannels s)]"

definition putFrame :: "int \<Rightarrow> int \<Rightarrow> (int \<Rightarrow> real) \<Rightarrow> (int \<Rightarrow> real) \<Rightarrow> int \<Rightarrow> real" where
  "putFrame p K src ab = (\<lambda>i. if p * K \<le> i \<and> i < p * K + K then src (i - p * K) else ab i)"

section \<open>Concrete sessions\<close>

text \<open>
  The globals after \<open>setup\<close> on a 44100 Hz platform, and the same state once discovery has
  opened a source with \<open>K\<close> channels (lines 124-146).
\<close>

definition idle_state :: state where
  "idle_state =
     \<lparr>resolver = True, audioStreamActive = False, audioInlet = Null,
      audioSampleRate = FloatOf 0,
      audioChannels = 0, belaSampleRate = 44100, audioBuffer = (\<lambda>i. 0), pullBuffer = (\<lambda>i. 0),
      timestampBuffer = (\<lambda>i. 0), readPos = 0, writePos = 0, reportCounter = 0\<rparr>"

definition audio_source :: "int \<Rightarrow> stream_info" where
  "audio_source K = \<lparr>name = ''audio'', nominal_srate = 44100, channel_count = K\<rparr>"

definition connected_state :: "int \<Rightarrow> state" where
  "connected_state K =
     idle_state\<lparr>audioChannels := K, audioSampleRate := FloatOf 44100, audioInlet := Live (audio_source K),
                audioStreamActive := True\<rparr>"

section \<open>The multi-inlet variant (render.cpp)\<close>

record multi_state =
  streamInlets :: "inlet_ptr list"
  streamNames :: "string list"
  streamData :: "real list list"
  streamsResolved :: bool
  shouldResolveStreams :: bool

text \<open>
  Modelled from the spec: the transport's \<open>pull_sample\<close> is not part of the repository.
  Following "may signal either an ordinary empty result or a distinct source permanently
  lost condition", one call on an inlet returns a timestamp (0 when nothing new was there)
  with the contents of the sample vector, or throws.
\<close>

datatype sample_outcome = Sample real "real list" | SampleThrows exn

text \<open>Indexing a \<open>std::vector\<close>: outside its size the access is undefined behaviour.\<close>

definition vector_at :: "'a list \<Rightarrow> nat \<Rightarrow> error + 'a" where
  "vector_at xs i = (if i < length xs then Inr (xs ! i) else Inl OutOfBounds)"

text \<open>
  The body of the inlet loop of \<open>pullSamples\<close>, lines 142-167, for inlet \<open>i\<close>: the
  \<open>try\<close> block and its two handlers. \<open>streamInlets[i]\<close> and \<open>streamData[i]\<close> are read
  for the call itself, \<open>streamNames[i]\<close> only where a line is printed.
\<close>

definition pullOne ::
  "(nat \<Rightarrow> sample_outcome) \<Rightarrow> nat \<Rightarrow> multi_state \<Rightarrow> error + (event list \<times> multi_state)" where
  "pullOne env i m =
     (case vector_at (streamInlets m) i of
        Inl e \<Rightarrow> Inl e
      | Inr Null \<Rightarrow> Inl BadPointer
      | Inr Dangling \<Rightarrow> Inl BadPointer
      | Inr (Live info) \<Rightarrow>
         (case vector_at (streamData m) i of
            Inl e \<Rightarrow> Inl e
          | Inr d \<Rightarrow>
             (case env i of
                Sample timestamp xs \<Rightarrow>
                  (let m' = m\<lparr>streamData := (streamData m)[i := xs]\<rparr>
                   in if timestamp \<noteq> 0 then
                        (case vector_at (streamNames m) i of
                           Inl e \<Rightarrow> Inl e
                         | Inr nm \<Rightarrow> Inr ([Printf_Sample nm xs timestamp], m'))
                      else Inr ([], m'))
              | SampleThrows LostError \<Rightarrow>
                  (case vector_at (streamNames m) i of
                     Inl e \<Rightarrow> Inl e
                   | Inr nm \<Rightarrow>
                      Inr ([Printf_StreamLost nm, CloseStream, DeleteInlet],
                           m\<lparr>streamInlets := (streamInlets m)[i := Null],
                             shouldResolveStreams := True\<rparr>))
              | SampleThrows OtherException \<Rightarrow>
                  (case vector_at (streamNames m) i of
                     Inl e \<Rightarrow> Inl e
                   | Inr nm \<Rightarrow> Inr ([Printf_PullError nm], m)))))"

text \<open>The inlet loop of lines 141-168.\<close>

function pullLoop ::
  "(nat \<Rightarrow> sample_outcome) \<Rightarrow> nat \<Rightarrow> multi_state \<Rightarrow> error + (event list \<times> multi_state)" where
  "pullLoop env i m =
     (if i < length (streamInlets m) then
        (case pullOne env i m of
           Inl e \<Rightarrow> Inl e
         | Inr (evs, m') \<Rightarrow>
            (case pullLoop env (i + 1) m' of
               Inl e \<Rightarrow> Inl e
             | Inr (evs', m'') \<Rightarrow> Inr (evs @ evs', m'')))
      else Inr ([], m))"
  by pat_completeness auto
termination
  by (relation "measure (\<lambda>(env, i, m). length (streamInlets m) - i)")
     (auto simp: pullOne_def vector_at_def Let_def
        split: if_splits sum.splits inlet_ptr.splits sample_outcome.splits exn.splits)

text \<open>The clean-up loop of lines 171-185: the three iterators advance and erase together.\<close>

fun eraseClosed ::
  "inlet_ptr list \<Rightarrow> string list \<Rightarrow> real list list
     \<Rightarrow> error + (inlet_ptr list \<times> string list \<times> real list list)" where
  "eraseClosed [] ns ds = Inr ([], ns, ds)"
| "eraseClosed (p # ps) (n # ns) (d # ds) =
     (case eraseClosed ps ns ds of
        Inl e \<Rightarrow> Inl e
      | Inr (ps', ns', ds') \<Rightarrow>
         (if p = Null then Inr (ps', ns', ds') else Inr (p # ps', n # ns', d # ds')))"
| "eraseClosed (p # ps) ns ds = Inl OutOfBounds"

text \<open>\<open>pullSamples\<close>, lines 136-192.\<close>

definition pullSamples ::
  "(nat \<Rightarrow> sample_outcome) \<Rightarrow> multi_state \<Rightarrow> error + (event list \<times> multi_state)" where
  "pullSamples env m =
     (if \<not> streamsResolved m \<or> streamInlets m = [] then Inr ([], m)
      else
        case pullLoop env 0 m of
          Inl e \<Rightarrow> Inl e
        | Inr (evs, m1) \<Rightarrow>
           (case eraseClosed (streamInlets m1) (streamNames m1) (streamData m1) of
              Inl e \<Rightarrow> Inl e
            | Inr (ps, ns, ds) \<Rightarrow>
               (let m2 = m1\<lparr>streamInlets := ps, streamNames := ns, streamData := ds\<rparr>
                in if streamInlets m2 = []
                   then Inr (evs @ [Printf_AllLost], m2\<lparr>streamsResolved := False\<rparr>)
                   else Inr (evs, m2))))"

section \<open>Scenarios\<close>

text \<open>Running a second step on the state a first step left, keeping both steps' events.\<close>

definition andThen ::
  "error + (event list \<times> state) \<Rightarrow> (state \<Rightarrow> error + (event list \<times> state))
     \<Rightarrow> error + (event list \<times> state)" where
  "andThen r f =
     (case r of
        Inl e \<Rightarrow> Inl e
      | Inr (evs, s) \<Rightarrow>
         (case f s of
            Inl e \<Rightarrow> Inl e
          | Inr (evs', s') \<Rightarrow> Inr (evs @ evs', s')))"

text \<open>
  A stereo session offered \<open>capacity - 1\<close> frames from reset, five frames played, five
  more offered: the buffer is full again, with \<open>readPos = 5\<close> and \<open>writePos = 4\<close>.
\<close>

definition refilled :: "error + state" where
  "refilled =
     (case offerFrames (replicate 8191 [0, 0]) (connected_state 2) of
        Inl e \<Rightarrow> Inl e
      | Inr s1 \<Rightarrow>
         (case renderLoop \<lparr>audioFrames = 5, audioOutChannels = 2\<rparr> 0 s1 of
            Inl e \<Rightarrow> Inl e
          | Inr (evs, s2) \<Rightarrow> offerFrames (replicate 5 [0, 0]) s2))"

text \<open>An empty stereo buffer whose indices both stand at 5, and the same buffer full of sevens.\<close>

definition empty_at_5 :: state where
  "empty_at_5 = (connected_state 2)\<lparr>readPos := 5, writePos := 5\<rparr>"

definition full_at_5 :: state where
  "full_at_5 = (connected_state 2)\<lparr>readPos := 5, writePos := 4, audioBuffer := (\<lambda>i. 7)\<rparr>"

text \<open>A mono session with one unread frame of value 5 in slot 0.\<close>

definition one_buffered :: state where
  "one_buffered = (connected_state 1)\<lparr>writePos := 1, audioBuffer := (\<lambda>i. 5)\<rparr>"

text \<open>A transport on which opening the stereo source fails and every other source opens.\<close>

definition flaky_transport :: "stream_info \<Rightarrow> open_outcome" where
  "flaky_transport info =
     (if channel_count info = 2 then OpenStreamThrows OtherException else Opened)"

text \<open>A transport on which every \<open>pull_sample\<close> fails with a non-loss exception.\<close>

definition always_transient :: "nat \<Rightarrow> sample_outcome" where
  "always_transient i = SampleThrows OtherException"

text \<open>A matching source advertised at 48 kHz, outside the tolerance of a 44.1 kHz platform.\<close>

definition source_48k :: stream_info where
  "source_48k = \<lparr>name = ''audio'', nominal_srate = 48000, channel_count = 1\<rparr>"

text \<open>One open inlet of the multi-inlet variant.\<close>

definition one_inlet :: multi_state where
  "one_inlet =
     \<lparr>streamInlets = [Live (audio_source 1)], streamNames = [''audio''], streamData = [[0]],
      streamsResolved = True, shouldResolveStreams = True\<rparr>"

section \<open>The ring buffer as a queue\<close>

text \<open>The loop equations unfold themselves; they are applied by hand.\<close>

declare copyChannels.simps [simp del]

declare copyFrames.simps [simp del]

declare writeChannels.simps [simp del]

declare silenceChannels.simps [simp del]

declare renderLoop.simps [simp del]

declare pullLoop.simps [simp del]

lemma mask_mod: "x AND bufferMask = x mod AUDIO_BUFFER_FRAMES"
  using take_bit_eq_mask[of 13 x]
  by (simp add: take_bit_eq_mod mask_eq_exp_minus_1 bufferMask_def AUDIO_BUFFER_FRAMES_def)

lemma copyChannels_result:
  "0 \<le> ch \<Longrightarrow> 0 \<le> pullIndex \<Longrightarrow> pullIndex + K \<le> PULL_BUFFER_SIZE \<Longrightarrow>
   0 \<le> bufferIndex \<Longrightarrow> bufferIndex + K \<le> AUDIO_BUFFER_SIZE \<Longrightarrow>
   copyChannels ch K bufferIndex pullIndex pb ab =
     Inr (\<lambda>i. if bufferIndex + ch \<le> i \<and> i < bufferIndex + K
               then pb (pullIndex + (i - bufferIndex)) else ab i)"
proof (induction ch K bufferIndex pullIndex pb ab rule: copyChannels.induct)
  case (1 ch K bufferIndex pullIndex pb ab)
  show ?case
  proof (cases "ch < K")
    case False
    then show ?thesis by (subst copyChannels.simps) auto
  next
    case True
    have rd: "array_read PULL_BUFFER_SIZE pb (pullIndex + ch) = Inr (pb (pullIndex + ch))"
      using True 1(2-) by (simp add: array_read_def)
    have wr: "array_write AUDIO_BUFFER_SIZE ab (bufferIndex + ch) (pb (pullIndex + ch))
               = Inr (ab(bufferIndex + ch := pb (pullIndex + ch)))"
      using True 1(2-) by (simp add: array_write_def)
    have ih: "copyChannels (ch + 1) K bufferIndex pullIndex pb (ab(bufferIndex + ch := pb (pullIndex + ch)))
        = Inr (\<lambda>i. if bufferIndex + (ch + 1) \<le> i \<and> i < bufferIndex + K
               then pb (pullIndex + (i - bufferIndex)) else (ab(bufferIndex + ch := pb (pullIndex + ch))) i)"
      by (rule 1(1)[OF True rd wr]) (use 1(2-) in simp_all)
    show ?thesis
      by (subst copyChannels.simps) (auto simp: True rd wr ih)
  qed
qed


lemma slot_bounds:
  "0 \<le> p \<Longrightarrow> p < AUDIO_BUFFER_FRAMES \<Longrightarrow> 0 < K \<Longrightarrow> K \<le> MAX_CHANNELS \<Longrightarrow>
   0 \<le> p * K \<and> p * K + K \<le> AUDIO_BUFFER_SIZE"
proof -
  assume a: "0 \<le> p" "p < AUDIO_BUFFER_FRAMES" "0 < K" "K \<le> MAX_CHANNELS"
  have "p * K + K = (p + 1) * K" by (simp add: algebra_simps)
  also have "\<dots> \<le> AUDIO_BUFFER_FRAMES * K"
    using a by (intro mult_right_mono) auto
  also have "\<dots> \<le> AUDIO_BUFFER_FRAMES * MAX_CHANNELS"
    using a by (intro mult_left_mono) (auto simp: AUDIO_BUFFER_FRAMES_def)
  finally have "p * K + K \<le> AUDIO_BUFFER_SIZE" by (simp add: AUDIO_BUFFER_SIZE_def)
  then show ?thesis using a by simp
qed

lemma frames_pos: "0 < AUDIO_BUFFER_FRAMES"
  by (simp add: AUDIO_BUFFER_FRAMES_def)

lemma putFrame_cong:
  "(\<And>j. 0 \<le> j \<Longrightarrow> j < K \<Longrightarrow> src j = src' j) \<Longrightarrow> putFrame p K src ab = putFrame p K src' ab"
  by (rule ext) (simp add: putFrame_def)

lemma pushFrame_result:
  assumes "0 < audioChannels s" "audioChannels s \<le> MAX_CHANNELS" "0 \<le> f"
    and "f * audioChannels s + audioChannels s \<le> PULL_BUFFER_SIZE"
  shows "pushFrame f s =
     Inr (s\<lparr>audioBuffer := putFrame (writePos s mod AUDIO_BUFFER_FRAMES) (audioChannels s)
                             (\<lambda>j. pullBuffer s (f * audioChannels s + j)) (audioBuffer s),
            writePos := (writePos s + 1) mod AUDIO_BUFFER_FRAMES\<rparr>)"
proof -
  let ?p = "writePos s mod AUDIO_BUFFER_FRAMES"
  have p: "0 \<le> ?p" "?p < AUDIO_BUFFER_FRAMES" using frames_pos by simp_all
  have b: "0 \<le> ?p * audioChannels s" "?p * audioChannels s + audioChannels s \<le> AUDIO_BUFFER_SIZE"
    using slot_bounds[OF p assms(1,2)] by simp_all
  have f: "0 \<le> f * audioChannels s" using assms by simp
  show ?thesis
    unfolding pushFrame_def Let_def mask_mod putFrame_def
    by (subst copyChannels_result[OF _ f assms(4) b]) simp_all
qed

lemma pushSamples_result:
  assumes "0 < audioChannels s" "audioChannels s \<le> MAX_CHANNELS" "length fr = nat (audioChannels s)"
  shows "pushSamples fr s =
     Inr (s\<lparr>pullBuffer := (\<lambda>i. if 0 \<le> i \<and> i < int (length fr) then fr ! nat i else pullBuffer s i),
            audioBuffer := putFrame (writePos s mod AUDIO_BUFFER_FRAMES) (audioChannels s)
                             (\<lambda>j. fr ! nat j) (audioBuffer s),
            writePos := (writePos s + 1) mod AUDIO_BUFFER_FRAMES\<rparr>)"
proof -
  have len: "int (length fr) = audioChannels s" using assms by simp
  have st: "array_store PULL_BUFFER_SIZE (pullBuffer s) fr =
      Inr (\<lambda>i. if 0 \<le> i \<and> i < int (length fr) then fr ! nat i else pullBuffer s i)"
    using assms len by (simp add: array_store_def PULL_BUFFER_SIZE_def MAX_CHANNELS_def)
  have sz: "(0::int) * audioChannels s + audioChannels s \<le> PULL_BUFFER_SIZE"
    using assms by (simp add: PULL_BUFFER_SIZE_def MAX_CHANNELS_def)
  let ?pb = "\<lambda>i. if 0 \<le> i \<and> i < int (length fr) then fr ! nat i else pullBuffer s i"
  let ?s1 = "s\<lparr>pullBuffer := ?pb\<rparr>"
  have pf: "pushFrame 0 ?s1 =
     Inr (?s1\<lparr>audioBuffer := putFrame (writePos ?s1 mod AUDIO_BUFFER_FRAMES) (audioChannels ?s1)
                             (\<lambda>j. pullBuffer ?s1 (0 * audioChannels ?s1 + j)) (audioBuffer ?s1),
            writePos := (writePos ?s1 + 1) mod AUDIO_BUFFER_FRAMES\<rparr>)"
    by (rule pushFrame_result) (use assms(1,2) sz in simp_all)
  have eq: "putFrame (writePos s mod AUDIO_BUFFER_FRAMES) (audioChannels s) ?pb (audioBuffer s)
          = putFrame (writePos s mod AUDIO_BUFFER_FRAMES) (audioChannels s) (\<lambda>j. fr ! nat j) (audioBuffer s)"
    by (rule putFrame_cong) (simp add: len)
  show ?thesis
    unfolding pushSamples_def st using pf eq by simp
qed

lemma diff_mod_ring:
  fixes w r C :: int
  assumes "0 \<le> r" "r < C" "0 \<le> w" "w < C"
  shows "(w - r) mod C = (if w - r < 0 then w - r + C else w - r)"
proof (cases "w - r < 0")
  case True
  have "(w - r) mod C = (w - r + C) mod C" by simp
  also have "\<dots> = w - r + C" using True assms by (intro mod_pos_pos_trivial) auto
  finally show ?thesis using True by simp
next
  case False
  then show ?thesis using assms by simp
qed

lemma samplesAvailable_mod:
  "ring_ok s \<Longrightarrow> samplesAvailable s = (writePos s - readPos s) mod AUDIO_BUFFER_FRAMES"
  unfolding ring_ok_def samplesAvailable_def Let_def
  by (simp add: diff_mod_ring)

lemma samplesAvailable_range:
  "ring_ok s \<Longrightarrow> 0 \<le> samplesAvailable s \<and> samplesAvailable s < AUDIO_BUFFER_FRAMES"
  using frames_pos by (simp add: samplesAvailable_mod)

lemma slot_put_same:
  assumes "audioChannels s' = audioChannels s" "length fr = nat (audioChannels s)"
    and "audioBuffer s' = putFrame p (audioChannels s) (\<lambda>j. fr ! nat j) ab"
  shows "slot s' p = fr"
proof (rule nth_equalityI)
  show "length (slot s' p) = length fr" using assms by (simp add: slot_def)
next
  fix i assume "i < length (slot s' p)"
  then have i: "i < nat (audioChannels s)" using assms by (simp add: slot_def)
  then have "int i < audioChannels s" by linarith
  then show "slot s' p ! i = fr ! i"
    using i assms(1,3) by (simp add: slot_def putFrame_def)
qed

lemma slot_put_other:
  assumes "audioChannels s' = audioChannels s" "q \<noteq> p"
    and "audioBuffer s' = putFrame p (audioChannels s) src (audioBuffer s)"
  shows "slot s' q = slot s q"
proof -
  let ?K = "audioChannels s"
  have "\<And>ch. ch < nat ?K \<Longrightarrow> \<not> (p * ?K \<le> q * ?K + int ch \<and> q * ?K + int ch < p * ?K + ?K)"
  proof
    fix ch assume ch: "ch < nat ?K" and h: "p * ?K \<le> q * ?K + int ch \<and> q * ?K + int ch < p * ?K + ?K"
    have K: "0 < ?K" "int ch < ?K" using ch by auto
    show False
    proof (cases "q < p")
      case True
      then have "(q + 1) * ?K \<le> p * ?K" using K by (intro mult_right_mono) auto
      then show False using h K by (simp add: algebra_simps)
    next
      case False
      then have "(p + 1) * ?K \<le> q * ?K" using K assms(2) by (intro mult_right_mono) auto
      then show False using h K by (simp add: algebra_simps)
    qed
  qed
  then show ?thesis using assms(1,3) by (auto simp: slot_def putFrame_def)
qed

lemma push_step:
  assumes "ring_ok s" "length fr = nat (audioChannels s)"
  shows "\<exists>s'. pushSamples fr s = Inr s' \<and> ring_ok s' \<and> readPos s' = readPos s
            \<and> writePos s' = (writePos s + 1) mod AUDIO_BUFFER_FRAMES
            \<and> audioChannels s' = audioChannels s
            \<and> slot s' (writePos s) = fr
            \<and> (\<forall>q. q \<noteq> writePos s \<longrightarrow> slot s' q = slot s q)"
proof -
  have K: "0 < audioChannels s" "audioChannels s \<le> MAX_CHANNELS" using assms by (simp_all add: ring_ok_def)
  have wp: "writePos s mod AUDIO_BUFFER_FRAMES = writePos s"
    using assms by (simp add: ring_ok_def)
  let ?s' = "s\<lparr>pullBuffer := (\<lambda>i. if 0 \<le> i \<and> i < int (length fr) then fr ! nat i else pullBuffer s i),
            audioBuffer := putFrame (writePos s) (audioChannels s)
                             (\<lambda>j. fr ! nat j) (audioBuffer s),
            writePos := (writePos s + 1) mod AUDIO_BUFFER_FRAMES\<rparr>"
  have r: "pushSamples fr s = Inr ?s'"
    using pushSamples_result[OF K assms(2)] by (simp add: wp)
  have ok: "ring_ok ?s'" using assms(1) frames_pos by (simp add: ring_ok_def)
  have same: "slot ?s' (writePos s) = fr"
    by (rule slot_put_same[where s=s and ab="audioBuffer s"]) (simp_all add: assms(2))
  have other: "\<forall>q. q \<noteq> writePos s \<longrightarrow> slot ?s' q = slot s q"
    by (intro allI impI slot_put_other[where p="writePos s" and src="\<lambda>j. fr ! nat j"]) simp_all
  show ?thesis using r ok same other by (intro exI[where x="?s'"]) simp
qed

lemma writeChannels_result:
  "0 \<le> bufferIndex \<Longrightarrow> bufferIndex + int bound \<le> AUDIO_BUFFER_SIZE \<Longrightarrow>
   writeChannels n ch bound bufferIndex ab =
     Inr (map (\<lambda>c. AudioWrite n c (ab (bufferIndex + int c))) [ch..<bound])"
proof (induction n ch bound bufferIndex ab rule: writeChannels.induct)
  case (1 n ch bound bufferIndex ab)
  show ?case
  proof (cases "ch < bound")
    case False
    then show ?thesis by (subst writeChannels.simps) simp
  next
    case True
    have idx: "(bufferIndex + int ch) mod 4294967296 = bufferIndex + int ch"
      using True 1(2,3) by (intro mod_pos_pos_trivial) (auto simp: AUDIO_BUFFER_SIZE_def AUDIO_BUFFER_FRAMES_def MAX_CHANNELS_def)
    have rd: "array_read AUDIO_BUFFER_SIZE ab ((bufferIndex + int ch) mod 4294967296)
               = Inr (ab (bufferIndex + int ch))"
      unfolding idx using True 1(2,3) by (simp add: array_read_def)
    have ih: "writeChannels n (Suc ch) bound bufferIndex ab =
       Inr (map (\<lambda>c. AudioWrite n c (ab (bufferIndex + int c))) [Suc ch..<bound])"
      using 1(1)[OF True rd] 1(2,3) by simp
    show ?thesis
      by (subst writeChannels.simps) (simp add: True rd ih upt_conv_Cons del: upt_Suc)
  qed
qed

lemma silenceChannels_result:
  "silenceChannels n ch bound = map (\<lambda>c. AudioWrite n c 0) [ch..<bound]"
proof (induction n ch bound rule: silenceChannels.induct)
  case (1 n ch bound)
  show ?case
  proof (cases "ch < bound")
    case False
    then show ?thesis by (subst silenceChannels.simps) simp
  next
    case True
    show ?thesis
      using 1[OF True] by (subst silenceChannels.simps) (simp add: True upt_conv_Cons del: upt_Suc)
  qed
qed


lemma slot_nth:
  "ch < nat (audioChannels s) \<Longrightarrow> slot s p ! ch = audioBuffer s (p * audioChannels s + int ch)"
  by (simp add: slot_def)

lemma pop_step:
  assumes "ring_ok s" "0 < samplesAvailable s"
  shows "render_frame ctx n s =
     Inr (frameWrites n (min (nat (audioChannels s)) (audioOutChannels ctx)) (slot s (readPos s)),
          s\<lparr>readPos := (readPos s + 1) mod AUDIO_BUFFER_FRAMES\<rparr>)"
proof -
  let ?K = "audioChannels s"
  let ?m = "min (nat ?K) (audioOutChannels ctx)"
  have K: "0 < ?K" "?K \<le> MAX_CHANNELS" and act: "audioStreamActive s"
    and rp: "0 \<le> readPos s" "readPos s < AUDIO_BUFFER_FRAMES"
    using assms(1) by (simp_all add: ring_ok_def)
  have un: "to_unsigned ?K = nat ?K"
    using K by (simp add: to_unsigned_def MAX_CHANNELS_def)
  have idx: "(readPos s AND bufferMask) * ?K = readPos s * ?K"
    using rp by (simp add: mask_mod)
  have b: "0 \<le> readPos s * ?K" "readPos s * ?K + ?K \<le> AUDIO_BUFFER_SIZE"
    using slot_bounds[OF rp K] by simp_all
  have b2: "readPos s * ?K + int ?m \<le> AUDIO_BUFFER_SIZE" using b K by simp
  have wc: "writeChannels n 0 ?m (readPos s * ?K) (audioBuffer s) =
      Inr (map (\<lambda>c. AudioWrite n c (audioBuffer s (readPos s * ?K + int c))) [0..<?m])"
    by (rule writeChannels_result[OF b(1) b2])
  have fw: "map (\<lambda>c. AudioWrite n c (audioBuffer s (readPos s * ?K + int c))) [0..<?m]
      = frameWrites n ?m (slot s (readPos s))"
    unfolding frameWrites_def by (rule map_cong) (simp_all add: slot_nth)
  show ?thesis
    unfolding render_frame_def Let_def un idx wc fw using act assms(2) by (simp add: mask_mod)
qed

lemma silence_step:
  "\<not> (audioStreamActive s \<and> 0 < samplesAvailable s) \<Longrightarrow>
   render_frame ctx n s = Inr (map (\<lambda>c. AudioWrite n c 0) [0..<audioOutChannels ctx], s)"
  by (auto simp: render_frame_def silenceChannels_result)

lemma length_unread: "length (unread s) = nat (samplesAvailable s)"
  by (simp add: unread_def)

lemma push_available:
  assumes "ring_ok s" "ring_ok s'" "readPos s' = readPos s"
    and "writePos s' = (writePos s + 1) mod AUDIO_BUFFER_FRAMES"
  shows "samplesAvailable s' = (samplesAvailable s + 1) mod AUDIO_BUFFER_FRAMES"
proof -
  have "samplesAvailable s' = ((writePos s + 1) mod AUDIO_BUFFER_FRAMES - readPos s) mod AUDIO_BUFFER_FRAMES"
    using assms by (simp add: samplesAvailable_mod)
  also have "\<dots> = (writePos s + 1 - readPos s) mod AUDIO_BUFFER_FRAMES"
    by (simp add: mod_diff_left_eq)
  also have "\<dots> = ((writePos s - readPos s) + 1) mod AUDIO_BUFFER_FRAMES"
    by (simp add: algebra_simps)
  also have "\<dots> = ((writePos s - readPos s) mod AUDIO_BUFFER_FRAMES + 1) mod AUDIO_BUFFER_FRAMES"
    by (simp add: mod_add_left_eq)
  finally show ?thesis using assms(1) by (simp add: samplesAvailable_mod)
qed

lemma ring_index_inj:
  fixes j a :: int
  assumes "(r + j) mod AUDIO_BUFFER_FRAMES = (r + a) mod AUDIO_BUFFER_FRAMES"
    and "0 \<le> j" "j < AUDIO_BUFFER_FRAMES" "0 \<le> a" "a < AUDIO_BUFFER_FRAMES"
  shows "j = a"
proof -
  have "AUDIO_BUFFER_FRAMES dvd (r + j) - (r + a)"
    using assms(1) by (simp add: mod_eq_dvd_iff)
  then have "AUDIO_BUFFER_FRAMES dvd j - a" by simp
  then have "j mod AUDIO_BUFFER_FRAMES = a mod AUDIO_BUFFER_FRAMES"
    by (simp add: mod_eq_dvd_iff)
  then show ?thesis using assms(2-) by simp
qed

lemma unread_push:
  assumes ok: "ring_ok s" and len: "length fr = nat (audioChannels s)"
    and room: "samplesAvailable s < AUDIO_BUFFER_FRAMES - 1"
    and push: "pushSamples fr s = Inr s'"
  shows "unread s' = unread s @ [fr]"
proof -
  from push_step[OF ok len] push
  have ok': "ring_ok s'" and rp: "readPos s' = readPos s"
    and wp: "writePos s' = (writePos s + 1) mod AUDIO_BUFFER_FRAMES"
    and same: "slot s' (writePos s) = fr"
    and other: "\<And>q. q \<noteq> writePos s \<Longrightarrow> slot s' q = slot s q"
    by auto
  let ?a = "samplesAvailable s"
  have a: "0 \<le> ?a" using samplesAvailable_range[OF ok] by simp
  have av': "samplesAvailable s' = ?a + 1"
    using push_available[OF ok ok' rp wp] a room by simp
  have n: "nat (samplesAvailable s') = Suc (nat ?a)" using av' a by simp
  have wpr: "0 \<le> writePos s" "writePos s < AUDIO_BUFFER_FRAMES" using ok by (simp_all add: ring_ok_def)
  have last: "(readPos s + ?a) mod AUDIO_BUFFER_FRAMES = writePos s"
  proof -
    have "(readPos s + ?a) mod AUDIO_BUFFER_FRAMES
        = (readPos s + (writePos s - readPos s) mod AUDIO_BUFFER_FRAMES) mod AUDIO_BUFFER_FRAMES"
      by (simp add: samplesAvailable_mod[OF ok])
    also have "\<dots> = (readPos s + (writePos s - readPos s)) mod AUDIO_BUFFER_FRAMES"
      by (simp add: mod_add_right_eq)
    finally show ?thesis using wpr by simp
  qed
  have before: "\<And>j. j < nat ?a \<Longrightarrow>
      slot s' ((readPos s + int j) mod AUDIO_BUFFER_FRAMES) = slot s ((readPos s + int j) mod AUDIO_BUFFER_FRAMES)"
  proof (rule other)
    fix j assume j: "j < nat ?a"
    show "(readPos s + int j) mod AUDIO_BUFFER_FRAMES \<noteq> writePos s"
    proof
      assume "(readPos s + int j) mod AUDIO_BUFFER_FRAMES = writePos s"
      then have "(readPos s + int j) mod AUDIO_BUFFER_FRAMES = (readPos s + ?a) mod AUDIO_BUFFER_FRAMES"
        using last by simp
      then have "int j = ?a"
        by (rule ring_index_inj) (use j a room in auto)
      then show False using j by simp
    qed
  qed
  have "unread s' = map (\<lambda>j. slot s' ((readPos s + int j) mod AUDIO_BUFFER_FRAMES)) [0..<nat ?a]
                    @ [slot s' ((readPos s + int (nat ?a)) mod AUDIO_BUFFER_FRAMES)]"
    by (simp add: unread_def n rp)
  also have "map (\<lambda>j. slot s' ((readPos s + int j) mod AUDIO_BUFFER_FRAMES)) [0..<nat ?a] = unread s"
    unfolding unread_def by (rule map_cong) (simp_all add: before)
  also have "slot s' ((readPos s + int (nat ?a)) mod AUDIO_BUFFER_FRAMES) = fr"
    using a last same by simp
  finally show ?thesis .
qed


lemma pop_ring_ok:
  "ring_ok s \<Longrightarrow> ring_ok (s\<lparr>readPos := (readPos s + 1) mod AUDIO_BUFFER_FRAMES\<rparr>)"
  using frames_pos by (simp add: ring_ok_def)

lemma pop_available:
  assumes "ring_ok s" "0 < samplesAvailable s"
  shows "samplesAvailable (s\<lparr>readPos := (readPos s + 1) mod AUDIO_BUFFER_FRAMES\<rparr>) = samplesAvailable s - 1"
proof -
  let ?s' = "s\<lparr>readPos := (readPos s + 1) mod AUDIO_BUFFER_FRAMES\<rparr>"
  have "samplesAvailable ?s' = (writePos s - (readPos s + 1) mod AUDIO_BUFFER_FRAMES) mod AUDIO_BUFFER_FRAMES"
    using pop_ring_ok[OF assms(1)] by (simp add: samplesAvailable_mod)
  also have "\<dots> = (writePos s - (readPos s + 1)) mod AUDIO_BUFFER_FRAMES"
    by (simp add: mod_diff_right_eq)
  also have "\<dots> = ((writePos s - readPos s) - 1) mod AUDIO_BUFFER_FRAMES"
    by (simp add: algebra_simps)
  also have "\<dots> = ((writePos s - readPos s) mod AUDIO_BUFFER_FRAMES - 1) mod AUDIO_BUFFER_FRAMES"
    by (simp add: mod_diff_left_eq)
  also have "\<dots> = (samplesAvailable s - 1) mod AUDIO_BUFFER_FRAMES"
    using assms(1) by (simp add: samplesAvailable_mod)
  finally show ?thesis
    using assms(2) samplesAvailable_range[OF assms(1)] by simp
qed

lemma unread_pop:
  assumes "ring_ok s" "0 < samplesAvailable s"
  shows "unread s = slot s (readPos s) # unread (s\<lparr>readPos := (readPos s + 1) mod AUDIO_BUFFER_FRAMES\<rparr>)"
proof -
  let ?s' = "s\<lparr>readPos := (readPos s + 1) mod AUDIO_BUFFER_FRAMES\<rparr>"
  let ?f = "\<lambda>j. slot s ((readPos s + int j) mod AUDIO_BUFFER_FRAMES)"
  have rp: "0 \<le> readPos s" "readPos s < AUDIO_BUFFER_FRAMES" using assms(1) by (simp_all add: ring_ok_def)
  have n: "nat (samplesAvailable s) = Suc (nat (samplesAvailable s - 1))" using assms(2) by simp
  have sl: "\<And>q. slot ?s' q = slot s q" by (simp add: slot_def)
  have idx: "\<And>j. ((readPos s + 1) mod AUDIO_BUFFER_FRAMES + int j) mod AUDIO_BUFFER_FRAMES
             = (readPos s + int (Suc j)) mod AUDIO_BUFFER_FRAMES"
  proof -
    fix j
    have "((readPos s + 1) mod AUDIO_BUFFER_FRAMES + int j) mod AUDIO_BUFFER_FRAMES
        = ((readPos s + 1) + int j) mod AUDIO_BUFFER_FRAMES"
      by (rule mod_add_left_eq)
    also have "(readPos s + 1) + int j = readPos s + int (Suc j)" by simp
    finally show "((readPos s + 1) mod AUDIO_BUFFER_FRAMES + int j) mod AUDIO_BUFFER_FRAMES
             = (readPos s + int (Suc j)) mod AUDIO_BUFFER_FRAMES" .
  qed
  have "unread s = ?f 0 # map (\<lambda>j. ?f (Suc j)) [0..<nat (samplesAvailable s - 1)]"
    unfolding unread_def n by (rule map_upt_Suc)
  also have "?f 0 = slot s (readPos s)" using rp by simp
  also have "map (\<lambda>j. ?f (Suc j)) [0..<nat (samplesAvailable s - 1)] = unread ?s'"
    unfolding unread_def pop_available[OF assms] sl
  proof (rule map_cong)
    fix x
    have "readPos ?s' = (readPos s + 1) mod AUDIO_BUFFER_FRAMES" by simp
    then show "slot s ((readPos s + int (Suc x)) mod AUDIO_BUFFER_FRAMES)
        = slot s ((readPos ?s' + int x) mod AUDIO_BUFFER_FRAMES)"
      by (simp only: idx)
  qed simp
  finally show ?thesis .
qed

lemma pushFrames_unread:
  "ring_ok s \<Longrightarrow> \<forall>fr\<in>set fs. length fr = nat (audioChannels s) \<Longrightarrow>
   samplesAvailable s + int (length fs) \<le> AUDIO_BUFFER_FRAMES - 1 \<Longrightarrow>
   \<exists>s'. pushFrames fs s = Inr s' \<and> ring_ok s' \<and> unread s' = unread s @ fs
        \<and> audioChannels s' = audioChannels s"
proof (induction fs arbitrary: s)
  case Nil
  then show ?case by simp
next
  case (Cons fr fs)
  have len: "length fr = nat (audioChannels s)" using Cons.prems(2) by simp
  from push_step[OF Cons.prems(1) len] obtain s1 where
    p: "pushSamples fr s = Inr s1" and ok1: "ring_ok s1" and rp: "readPos s1 = readPos s"
    and wp: "writePos s1 = (writePos s + 1) mod AUDIO_BUFFER_FRAMES"
    and K1: "audioChannels s1 = audioChannels s"
    by blast
  have room: "samplesAvailable s < AUDIO_BUFFER_FRAMES - 1" using Cons.prems(3) by simp
  have un1: "unread s1 = unread s @ [fr]" by (rule unread_push[OF Cons.prems(1) len room p])
  have av1: "samplesAvailable s1 = samplesAvailable s + 1"
    using push_available[OF Cons.prems(1) ok1 rp wp] room samplesAvailable_range[OF Cons.prems(1)]
    by simp
  have "\<exists>s'. pushFrames fs s1 = Inr s' \<and> ring_ok s' \<and> unread s' = unread s1 @ fs
        \<and> audioChannels s' = audioChannels s1"
    by (rule Cons.IH[OF ok1]) (use Cons.prems(2,3) K1 av1 in auto)
  then show ?case using p un1 K1 by auto
qed

lemma renderLoop_unread:
  "ring_ok s \<Longrightarrow> unread s = fs @ rest \<Longrightarrow> audioFrames ctx = n + length fs \<Longrightarrow>
   \<exists>s'. renderLoop ctx n s =
          Inr (concat (map (\<lambda>i. frameWrites (n + i) (min (nat (audioChannels s)) (audioOutChannels ctx)) (fs ! i))
                        [0..<length fs]), s')
        \<and> ring_ok s' \<and> unread s' = rest \<and> audioChannels s' = audioChannels s
        \<and> writePos s' = writePos s
        \<and> readPos s' = (readPos s + int (length fs)) mod AUDIO_BUFFER_FRAMES"
proof (induction fs arbitrary: s n)
  case Nil
  then show ?case by (subst renderLoop.simps) (simp add: ring_ok_def)
next
  case (Cons fr fs)
  let ?s1 = "s\<lparr>readPos := (readPos s + 1) mod AUDIO_BUFFER_FRAMES\<rparr>"
  let ?m = "min (nat (audioChannels s)) (audioOutChannels ctx)"
  have pos: "0 < samplesAvailable s"
    using Cons.prems(2) length_unread[of s] by (cases "0 < samplesAvailable s") auto
  have un: "unread s = slot s (readPos s) # unread ?s1" by (rule unread_pop[OF Cons.prems(1) pos])
  then have hd: "slot s (readPos s) = fr" and tl: "unread ?s1 = fs @ rest"
    using Cons.prems(2) by simp_all
  have step: "render_frame ctx n s = Inr (frameWrites n ?m fr, ?s1)"
    using pop_step[OF Cons.prems(1) pos] hd by simp
  have "\<exists>s'. renderLoop ctx (Suc n) ?s1 =
          Inr (concat (map (\<lambda>i. frameWrites (Suc n + i) (min (nat (audioChannels ?s1)) (audioOutChannels ctx)) (fs ! i))
                        [0..<length fs]), s')
        \<and> ring_ok s' \<and> unread s' = rest \<and> audioChannels s' = audioChannels ?s1
        \<and> writePos s' = writePos ?s1
        \<and> readPos s' = (readPos ?s1 + int (length fs)) mod AUDIO_BUFFER_FRAMES"
    by (rule Cons.IH[OF pop_ring_ok[OF Cons.prems(1)] tl]) (use Cons.prems(3) in simp)
  then obtain s' where
    rl: "renderLoop ctx (Suc n) ?s1 =
          Inr (concat (map (\<lambda>i. frameWrites (Suc n + i) ?m (fs ! i)) [0..<length fs]), s')"
    and rest0: "ring_ok s'" "unread s' = rest" "audioChannels s' = audioChannels s"
      "writePos s' = writePos s"
    and rp': "readPos s' = ((readPos s + 1) mod AUDIO_BUFFER_FRAMES + int (length fs)) mod AUDIO_BUFFER_FRAMES"
    by auto
  have "((readPos s + 1) mod AUDIO_BUFFER_FRAMES + int (length fs)) mod AUDIO_BUFFER_FRAMES
      = ((readPos s + 1) + int (length fs)) mod AUDIO_BUFFER_FRAMES"
    by (rule mod_add_left_eq)
  then have "readPos s' = (readPos s + int (length (fr # fs))) mod AUDIO_BUFFER_FRAMES"
    using rp' by (simp add: algebra_simps)
  note rest = rest0 this
  have lt: "n < audioFrames ctx" using Cons.prems(3) by simp
  have ex: "concat (map (\<lambda>i. frameWrites (n + i) ?m ((fr # fs) ! i)) [0..<length (fr # fs)])
      = frameWrites n ?m fr @ concat (map (\<lambda>i. frameWrites (Suc n + i) ?m (fs ! i)) [0..<length fs])"
    by (simp add: map_upt_Suc del: upt_Suc)
  show ?case
    unfolding ex using rest by (subst renderLoop.simps) (simp add: lt step rl)
qed

lemma connected_by_discovery:
  "0 < K \<Longrightarrow> K \<le> 8 \<Longrightarrow>
   resolveStreams (\<lambda>i. Opened) [audio_source K] idle_state =
     Inr ([NewInlet (audio_source K), OpenStream (audio_source K), Printf_Connected K (FloatOf 44100)],
          connected_state K)"
  by (simp add: resolveStreams_def idle_state_def audio_source_def connected_state_def
      AUDIO_STREAM_NAME_def rateCompatible_def connectCandidate_def MAX_CHANNELS_def releaseInlet_def)

lemma pushFrames_positions:
  "ring_ok s \<Longrightarrow> \<forall>fr\<in>set fs. length fr = nat (audioChannels s) \<Longrightarrow>
   \<exists>s'. pushFrames fs s = Inr s' \<and> ring_ok s' \<and> readPos s' = readPos s
        \<and> writePos s' = (writePos s + int (length fs)) mod AUDIO_BUFFER_FRAMES
        \<and> audioChannels s' = audioChannels s"
proof (induction fs arbitrary: s)
  case Nil
  then show ?case by (simp add: ring_ok_def)
next
  case (Cons fr fs)
  have len: "length fr = nat (audioChannels s)" using Cons.prems(2) by simp
  from push_step[OF Cons.prems(1) len] obtain s1 where
    p: "pushSamples fr s = Inr s1" and ok1: "ring_ok s1" and rp: "readPos s1 = readPos s"
    and wp: "writePos s1 = (writePos s + 1) mod AUDIO_BUFFER_FRAMES"
    and K1: "audioChannels s1 = audioChannels s"
    by blast
  have "\<exists>s'. pushFrames fs s1 = Inr s' \<and> ring_ok s' \<and> readPos s' = readPos s1
        \<and> writePos s' = (writePos s1 + int (length fs)) mod AUDIO_BUFFER_FRAMES
        \<and> audioChannels s' = audioChannels s1"
    by (rule Cons.IH[OF ok1]) (use Cons.prems(2) K1 in auto)
  then obtain s' where r: "pushFrames fs s1 = Inr s'" "ring_ok s'" "readPos s' = readPos s1"
     "writePos s' = (writePos s1 + int (length fs)) mod AUDIO_BUFFER_FRAMES"
     "audioChannels s' = audioChannels s1" by blast
  have "(writePos s1 + int (length fs)) mod AUDIO_BUFFER_FRAMES
      = ((writePos s + 1) + int (length fs)) mod AUDIO_BUFFER_FRAMES"
    unfolding wp by (rule mod_add_left_eq)
  then have "writePos s' = (writePos s + int (length (fr # fs))) mod AUDIO_BUFFER_FRAMES"
    using r(4) by (simp add: algebra_simps)
  then show ?case using p r rp K1 by auto
qed

lemma renderLoop_silent:
  "\<not> (audioStreamActive s \<and> 0 < samplesAvailable s) \<Longrightarrow>
   renderLoop ctx n s =
     Inr (concat (map (\<lambda>i. map (\<lambda>c. AudioWrite i c 0) [0..<audioOutChannels ctx]) [n..<audioFrames ctx]), s)"
proof (induction ctx n s rule: renderLoop.induct)
  case (1 ctx n s)
  show ?case
  proof (cases "n < audioFrames ctx")
    case False
    then show ?thesis by (subst renderLoop.simps) simp
  next
    case True
    have st: "render_frame ctx n s = Inr (map (\<lambda>c. AudioWrite n c 0) [0..<audioOutChannels ctx], s)"
      by (rule silence_step[OF 1(2)])
    have ih: "renderLoop ctx (Suc n) s =
     Inr (concat (map (\<lambda>i. map (\<lambda>c. AudioWrite i c 0) [0..<audioOutChannels ctx]) [Suc n..<audioFrames ctx]), s)"
      using 1(1)[OF True st refl 1(2)] by simp
    show ?thesis
      by (subst renderLoop.simps) (simp add: True st ih upt_conv_Cons del: upt_Suc)
  qed
qed

lemma ring_ok_connected: "0 < K \<Longrightarrow> K \<le> 8 \<Longrightarrow> ring_ok (connected_state K)"
  by (simp add: ring_ok_def connected_state_def idle_state_def MAX_CHANNELS_def AUDIO_BUFFER_FRAMES_def)

lemma connected_fields:
  "audioChannels (connected_state K) = K" "readPos (connected_state K) = 0"
  "writePos (connected_state K) = 0" "audioStreamActive (connected_state K)"
  by (simp_all add: connected_state_def idle_state_def)

lemma runOps_positions:
  "ring_ok s \<Longrightarrow> \<forall>fr. Push fr \<in> set ops \<longrightarrow> length fr = nat (audioChannels s) \<Longrightarrow>
   \<exists>k s'. runOps ctx ops s =
            Inr (length (filter (\<lambda>op. op \<noteq> Pop) ops), length (filter (\<lambda>op. op = Pop) ops), k, s')
        \<and> k \<le> length (filter (\<lambda>op. op = Pop) ops)
        \<and> ring_ok s' \<and> audioChannels s' = audioChannels s
        \<and> writePos s' = (writePos s + int (length (filter (\<lambda>op. op \<noteq> Pop) ops))) mod AUDIO_BUFFER_FRAMES
        \<and> readPos s' = (readPos s + int k) mod AUDIO_BUFFER_FRAMES"
proof (induction ops arbitrary: s)
  case Nil
  then show ?case by (simp add: ring_ok_def)
next
  case (Cons op ops)
  let ?w = "length (filter (\<lambda>op. op \<noteq> Pop) ops)"
  let ?r = "length (filter (\<lambda>op. op = Pop) ops)"
  show ?case
  proof (cases op)
    case (Push fr)
    have len: "length fr = nat (audioChannels s)" using Cons.prems(2) Push by simp
    from push_step[OF Cons.prems(1) len] obtain s1 where
      p: "pushSamples fr s = Inr s1" and ok1: "ring_ok s1" and rp: "readPos s1 = readPos s"
      and wp: "writePos s1 = (writePos s + 1) mod AUDIO_BUFFER_FRAMES"
      and K1: "audioChannels s1 = audioChannels s"
      by blast
    have "\<exists>k s'. runOps ctx ops s1 = Inr (?w, ?r, k, s') \<and> k \<le> ?r \<and> ring_ok s'
        \<and> audioChannels s' = audioChannels s1
        \<and> writePos s' = (writePos s1 + int ?w) mod AUDIO_BUFFER_FRAMES
        \<and> readPos s' = (readPos s1 + int k) mod AUDIO_BUFFER_FRAMES"
      by (rule Cons.IH[OF ok1]) (use Cons.prems(2) K1 in auto)
    then obtain k s' where r: "runOps ctx ops s1 = Inr (?w, ?r, k, s')" "k \<le> ?r" "ring_ok s'"
      "audioChannels s' = audioChannels s1"
      "writePos s' = (writePos s1 + int ?w) mod AUDIO_BUFFER_FRAMES"
      "readPos s' = (readPos s1 + int k) mod AUDIO_BUFFER_FRAMES" by blast
    have "(writePos s1 + int ?w) mod AUDIO_BUFFER_FRAMES
        = ((writePos s + 1) + int ?w) mod AUDIO_BUFFER_FRAMES"
      unfolding wp by (rule mod_add_left_eq)
    then have "writePos s' = (writePos s + int (Suc ?w)) mod AUDIO_BUFFER_FRAMES"
      using r(5) by (simp add: algebra_simps)
    then show ?thesis using Push p r rp K1 by auto
  next
    case Pop
    show ?thesis
    proof (cases "0 < samplesAvailable s")
      case True
      let ?s1 = "s\<lparr>readPos := (readPos s + 1) mod AUDIO_BUFFER_FRAMES\<rparr>"
      have st: "render_frame ctx 0 s =
          Inr (frameWrites 0 (min (nat (audioChannels s)) (audioOutChannels ctx)) (slot s (readPos s)), ?s1)"
        by (rule pop_step[OF Cons.prems(1) True])
      have act: "audioStreamActive s" using Cons.prems(1) by (simp add: ring_ok_def)
      have "\<exists>k s'. runOps ctx ops ?s1 = Inr (?w, ?r, k, s') \<and> k \<le> ?r \<and> ring_ok s'
        \<and> audioChannels s' = audioChannels ?s1
        \<and> writePos s' = (writePos ?s1 + int ?w) mod AUDIO_BUFFER_FRAMES
        \<and> readPos s' = (readPos ?s1 + int k) mod AUDIO_BUFFER_FRAMES"
        by (rule Cons.IH[OF pop_ring_ok[OF Cons.prems(1)]]) (use Cons.prems(2) in auto)
      then obtain k s' where r: "runOps ctx ops ?s1 = Inr (?w, ?r, k, s')" "k \<le> ?r" "ring_ok s'"
        "audioChannels s' = audioChannels s"
        "writePos s' = (writePos s + int ?w) mod AUDIO_BUFFER_FRAMES"
        "readPos s' = ((readPos s + 1) mod AUDIO_BUFFER_FRAMES + int k) mod AUDIO_BUFFER_FRAMES"
        by auto
      have "((readPos s + 1) mod AUDIO_BUFFER_FRAMES + int k) mod AUDIO_BUFFER_FRAMES
          = ((readPos s + 1) + int k) mod AUDIO_BUFFER_FRAMES"
        by (rule mod_add_left_eq)
      then have "readPos s' = (readPos s + int (Suc k)) mod AUDIO_BUFFER_FRAMES"
        using r(6) by (simp add: algebra_simps)
      then show ?thesis using Pop st r act True by auto
    next
      case False
      have st: "render_frame ctx 0 s = Inr (map (\<lambda>c. AudioWrite 0 c 0) [0..<audioOutChannels ctx], s)"
        by (rule silence_step) (use False in simp)
      have "\<exists>k s'. runOps ctx ops s = Inr (?w, ?r, k, s') \<and> k \<le> ?r \<and> ring_ok s'
        \<and> audioChannels s' = audioChannels s
        \<and> writePos s' = (writePos s + int ?w) mod AUDIO_BUFFER_FRAMES
        \<and> readPos s' = (readPos s + int k) mod AUDIO_BUFFER_FRAMES"
        by (rule Cons.IH[OF Cons.prems(1)]) (use Cons.prems(2) in auto)
      then show ?thesis using Pop st False by auto
    qed
  qed
qed

text \<open>
  C4, as amended. Starting from an empty buffer of an active session, after any run of
  \<open>w\<close> pushes and \<open>r\<close> pops of which \<open>k\<close> returned a frame (a pop on an empty buffer
  returns none and moves nothing), with \<open>k \<le> w\<close> and \<open>w - k < capacity\<close>,
  \<open>samplesAvailable\<close> returns \<open>w - k\<close>; so it returns \<open>w - r\<close> when every pop returned a
  frame, \<open>r \<le> w\<close> and \<open>w - r < capacity\<close>. The run itself never leaves defined behaviour.
  With no active session \<open>samplesAvailable\<close> returns 0 whatever the indices.
\<close>

theorem available_counts:
  assumes "ring_ok s" and "readPos s = writePos s"
    and "\<forall>fr. Push fr \<in> set ops \<longrightarrow> length fr = nat (audioChannels s)"
  shows "(\<exists>k s'. runOps ctx ops s =
                  Inr (length (filter (\<lambda>op. op \<noteq> Pop) ops), length (filter (\<lambda>op. op = Pop) ops), k, s')
            \<and> k \<le> length (filter (\<lambda>op. op = Pop) ops)
            \<and> (int k \<le> int (length (filter (\<lambda>op. op \<noteq> Pop) ops))
                 \<and> int (length (filter (\<lambda>op. op \<noteq> Pop) ops)) - int k < AUDIO_BUFFER_FRAMES
               \<longrightarrow> samplesAvailable s' = int (length (filter (\<lambda>op. op \<noteq> Pop) ops)) - int k)
            \<and> (k = length (filter (\<lambda>op. op = Pop) ops)
                 \<and> length (filter (\<lambda>op. op = Pop) ops) \<le> length (filter (\<lambda>op. op \<noteq> Pop) ops)
                 \<and> int (length (filter (\<lambda>op. op \<noteq> Pop) ops))
                      - int (length (filter (\<lambda>op. op = Pop) ops)) < AUDIO_BUFFER_FRAMES
               \<longrightarrow> samplesAvailable s' =
                     int (length (filter (\<lambda>op. op \<noteq> Pop) ops))
                       - int (length (filter (\<lambda>op. op = Pop) ops))))
         \<and> (\<forall>t. \<not> audioStreamActive t \<longrightarrow> samplesAvailable t = 0)"
proof -
  let ?w = "length (filter (\<lambda>op. op \<noteq> Pop) ops)"
  let ?r = "length (filter (\<lambda>op. op = Pop) ops)"
  from runOps_positions[OF assms(1,3), of ctx] obtain k s' where
    run: "runOps ctx ops s = Inr (?w, ?r, k, s')" and kr: "k \<le> ?r" and ok': "ring_ok s'"
    and wp: "writePos s' = (writePos s + int ?w) mod AUDIO_BUFFER_FRAMES"
    and rp: "readPos s' = (readPos s + int k) mod AUDIO_BUFFER_FRAMES"
    by blast
  have av: "samplesAvailable s' = (int ?w - int k) mod AUDIO_BUFFER_FRAMES"
  proof -
    have "samplesAvailable s' =
        ((writePos s + int ?w) mod AUDIO_BUFFER_FRAMES - (writePos s + int k) mod AUDIO_BUFFER_FRAMES)
          mod AUDIO_BUFFER_FRAMES"
      using ok' wp rp assms(2) by (simp add: samplesAvailable_mod)
    also have "\<dots> = ((writePos s + int ?w) - (writePos s + int k)) mod AUDIO_BUFFER_FRAMES"
      by (rule mod_diff_eq)
    finally show ?thesis by simp
  qed
  have a: "int k \<le> int ?w \<and> int ?w - int k < AUDIO_BUFFER_FRAMES \<longrightarrow> samplesAvailable s' = int ?w - int k"
    using av by simp
  then have b: "k = ?r \<and> ?r \<le> ?w \<and> int ?w - int ?r < AUDIO_BUFFER_FRAMES
      \<longrightarrow> samplesAvailable s' = int ?w - int ?r"
    by auto
  have first: "\<exists>k s'. runOps ctx ops s = Inr (?w, ?r, k, s') \<and> k \<le> ?r
            \<and> (int k \<le> int ?w \<and> int ?w - int k < AUDIO_BUFFER_FRAMES
               \<longrightarrow> samplesAvailable s' = int ?w - int k)
            \<and> (k = ?r \<and> ?r \<le> ?w \<and> int ?w - int ?r < AUDIO_BUFFER_FRAMES
               \<longrightarrow> samplesAvailable s' = int ?w - int ?r)"
    using run kr a b by blast
  have second: "\<forall>t. \<not> audioStreamActive t \<longrightarrow> samplesAvailable t = 0"
    by (simp add: samplesAvailable_def)
  show ?thesis using first second by (rule conjI)
qed

lemma run_example:
  "map_sum id (\<lambda>(w, r, k, s). (w, r, k))
     (runOps \<lparr>audioFrames = 1, audioOutChannels = 2\<rparr> [Push [1, 2], Push [3, 4], Pop] (connected_state 2))
   = Inr (2, 1, 1)"
  by (simp add: pushSamples_result pop_step ring_ok_def samplesAvailable_def connected_state_def
      idle_state_def AUDIO_BUFFER_FRAMES_def MAX_CHANNELS_def)

text \<open>Two pushes and one pop on a stereo session: the pop returns a frame, one frame is left.\<close>

theorem available_counts_witness:
  "ring_ok (connected_state 2) \<and> readPos (connected_state 2) = writePos (connected_state 2)
   \<and> length [1, 2::real] = nat (audioChannels (connected_state 2))
   \<and> length [3, 4::real] = nat (audioChannels (connected_state 2))
   \<and> (\<exists>s'. runOps \<lparr>audioFrames = 1, audioOutChannels = 2\<rparr> [Push [1, 2], Push [3, 4], Pop]
              (connected_state 2) = Inr (2, 1, 1, s')
          \<and> int 1 \<le> int 2 \<and> int 2 - int 1 < AUDIO_BUFFER_FRAMES
          \<and> samplesAvailable s' = 1)
   \<and> \<not> audioStreamActive idle_state \<and> samplesAvailable idle_state = 0"
proof -
  let ?ctx = "\<lparr>audioFrames = 1, audioOutChannels = 2\<rparr>"
  let ?ops = "[Push [1, 2], Push [3, 4], Pop]"
  have h1: "ring_ok (connected_state 2)" by (simp add: ring_ok_connected)
  have h2: "readPos (connected_state 2) = writePos (connected_state 2)"
    by (simp add: connected_fields)
  have h3: "\<forall>fr. Push fr \<in> set ?ops \<longrightarrow> length fr = nat (audioChannels (connected_state 2))"
    by (auto simp: connected_fields)
  have w: "length (filter (\<lambda>op. op \<noteq> Pop) ?ops) = 2" "length (filter (\<lambda>op. op = Pop) ?ops) = 1"
    by simp_all
  from available_counts[OF h1 h2 h3, of ?ctx] obtain k s' where
    run: "runOps ?ctx ?ops (connected_state 2) = Inr (2, 1, k, s')"
    and av: "int k \<le> int 2 \<and> int 2 - int k < AUDIO_BUFFER_FRAMES \<longrightarrow> samplesAvailable s' = int 2 - int k"
    and idle: "\<forall>t. \<not> audioStreamActive t \<longrightarrow> samplesAvailable t = 0"
    unfolding w by auto
  have k: "k = 1" using run_example run by simp
  have b: "int 1 \<le> int 2 \<and> int 2 - int 1 < AUDIO_BUFFER_FRAMES" by (simp add: AUDIO_BUFFER_FRAMES_def)
  have "samplesAvailable s' = 1" using av b k by simp
  moreover have "\<not> audioStreamActive idle_state" by (simp add: idle_state_def)
  ultimately show ?thesis using h1 h2 h3 run k b idle by auto
qed

text \<open>
  C4 as stated counts every pop. A pop on the empty buffer followed by a push is one push and
  one pop, \<open>r \<le> w\<close> and \<open>w - r = 0\<close>, yet one frame is available afterwards: the pop
  returned nothing.
\<close>

theorem pop_on_empty_counterexample:
  "map_sum id (\<lambda>(w, r, k, s). (w, r, k, samplesAvailable s))
     (runOps \<lparr>audioFrames = 1, audioOutChannels = 2\<rparr> [Pop, Push [1, 2]] (connected_state 2))
   = Inr (1, 1, 0, 1)"
  by (simp add: pushSamples_result silence_step ring_ok_def samplesAvailable_def connected_state_def
      idle_state_def AUDIO_BUFFER_FRAMES_def MAX_CHANNELS_def)

section \<open>Write space at the full state\<close>

lemma write_space_pos:
  assumes "ring_ok s" "samplesAvailable s < AUDIO_BUFFER_FRAMES - 1"
  shows "0 < maxFramesToPull s"
  using assms
  unfolding ring_ok_def samplesAvailable_def maxFramesToPull_def writeSpace_def Let_def
    AUDIO_BUFFER_FRAMES_def
  by (auto split: if_splits)

lemma offerFrames_accepts:
  "ring_ok s \<Longrightarrow> \<forall>fr\<in>set fs. length fr = nat (audioChannels s) \<Longrightarrow>
   samplesAvailable s + int (length fs) \<le> AUDIO_BUFFER_FRAMES - 1 \<Longrightarrow>
   offerFrames fs s = pushFrames fs s"
proof (induction fs arbitrary: s)
  case Nil
  then show ?case by simp
next
  case (Cons fr fs)
  have len: "length fr = nat (audioChannels s)" using Cons.prems(2) by simp
  have room: "samplesAvailable s < AUDIO_BUFFER_FRAMES - 1" using Cons.prems(3) by simp
  have sp: "0 < maxFramesToPull s" by (rule write_space_pos[OF Cons.prems(1) room])
  from push_step[OF Cons.prems(1) len] obtain s1 where
    p: "pushSamples fr s = Inr s1" and ok1: "ring_ok s1" and rp: "readPos s1 = readPos s"
    and wp: "writePos s1 = (writePos s + 1) mod AUDIO_BUFFER_FRAMES"
    and K1: "audioChannels s1 = audioChannels s"
    by blast
  have av1: "samplesAvailable s1 = samplesAvailable s + 1"
    using push_available[OF Cons.prems(1) ok1 rp wp] room samplesAvailable_range[OF Cons.prems(1)]
    by simp
  have "offerFrames fs s1 = pushFrames fs s1"
    by (rule Cons.IH[OF ok1]) (use Cons.prems(2,3) K1 av1 in auto)
  then show ?case using sp p by simp
qed

lemma pushFrames_fill:
  assumes "ring_ok s" "\<forall>fr\<in>set fs. length fr = nat (audioChannels s)"
    and "samplesAvailable s + int (length fs) \<le> AUDIO_BUFFER_FRAMES - 1"
  shows "\<exists>s'. pushFrames fs s = Inr s' \<and> ring_ok s' \<and> unread s' = unread s @ fs
        \<and> audioChannels s' = audioChannels s \<and> readPos s' = readPos s
        \<and> writePos s' = (writePos s + int (length fs)) mod AUDIO_BUFFER_FRAMES"
  using pushFrames_unread[OF assms] pushFrames_positions[OF assms(1,2)] by auto

text \<open>
  C1, at its failing input. The slack invariant \<open>writeSpace + samplesAvailable = capacity - 1\<close>
  breaks in a full buffer whose \<open>readPos\<close> is \<open>writePos + 1\<close>: the test
  \<open>available <= 0\<close> of line 62 also fires on the value 0 and turns it into 8192. The state is
  reached from reset by 8191 pushes, 5 output ticks and 5 more pushes, every push made while
  the fill task's own check of line 66 lets it through; there
  \<open>samplesAvailable\<close> is 8191 and the write space is 8192, so the sum is 16383, not 8191.
\<close>

theorem refilled_write_space:
  "map_sum id (\<lambda>s. (readPos s, writePos s, samplesAvailable s, writeSpace s)) refilled
     = Inr (5, 4, 8191, 8192)"
proof -
  let ?ctx = "\<lparr>audioFrames = 5, audioOutChannels = 2\<rparr>"
  have ok0: "ring_ok (connected_state 2)" by (simp add: ring_ok_connected)
  have e0: "samplesAvailable (connected_state 2) = 0"
    using ok0 by (simp add: samplesAvailable_mod connected_fields)
  have u0: "unread (connected_state 2) = []" by (simp add: unread_def e0)
  have wf1: "\<forall>fr\<in>set (replicate 8191 [0, 0::real]). length fr = nat (audioChannels (connected_state 2))"
    by (simp add: connected_fields)
  have room1: "samplesAvailable (connected_state 2) + int (length (replicate 8191 [0, 0::real]))
        \<le> AUDIO_BUFFER_FRAMES - 1"
    by (simp add: e0 AUDIO_BUFFER_FRAMES_def)
  from pushFrames_fill[OF ok0 wf1 room1] obtain s1 where
    p1: "pushFrames (replicate 8191 [0, 0]) (connected_state 2) = Inr s1" and ok1: "ring_ok s1"
    and u1: "unread s1 = replicate 8191 [0, 0]" and K1: "audioChannels s1 = 2"
    and rp1: "readPos s1 = 0" and wp1: "writePos s1 = 8191"
    by (auto simp: u0 connected_fields AUDIO_BUFFER_FRAMES_def)
  have split: "unread s1 = replicate 5 [0, 0] @ replicate 8186 [0, 0]"
    unfolding u1 by (simp add: replicate_add[symmetric])
  from renderLoop_unread[OF ok1 split, of ?ctx 0] obtain evs s2 where
    r2: "renderLoop ?ctx 0 s1 = Inr (evs, s2)" and ok2: "ring_ok s2"
    and K2: "audioChannels s2 = 2" and wp2: "writePos s2 = 8191" and rp2: "readPos s2 = 5"
    by (auto simp: K1 wp1 rp1 AUDIO_BUFFER_FRAMES_def)
  have wf2: "\<forall>fr\<in>set (replicate 5 [0, 0::real]). length fr = nat (audioChannels s2)"
    by (simp add: K2)
  from pushFrames_positions[OF ok2 wf2] obtain s3 where
    p3: "pushFrames (replicate 5 [0, 0]) s2 = Inr s3" and ok3: "ring_ok s3"
    and rp3: "readPos s3 = 5" and wp3: "writePos s3 = 4"
    by (auto simp: rp2 wp2 AUDIO_BUFFER_FRAMES_def)
  have o1: "offerFrames (replicate 8191 [0, 0]) (connected_state 2) = Inr s1"
    using offerFrames_accepts[OF ok0 wf1 room1] p1 by simp
  have av2: "samplesAvailable s2 = 8186"
    using ok2 by (simp add: samplesAvailable_mod rp2 wp2 AUDIO_BUFFER_FRAMES_def)
  have room2: "samplesAvailable s2 + int (length (replicate 5 [0, 0::real])) \<le> AUDIO_BUFFER_FRAMES - 1"
    by (simp add: av2 AUDIO_BUFFER_FRAMES_def)
  have o3: "offerFrames (replicate 5 [0, 0]) s2 = Inr s3"
    using offerFrames_accepts[OF ok2 wf2 room2] p3 by simp
  have res: "refilled = Inr s3" by (simp add: refilled_def o1 r2 o3)
  have av: "samplesAvailable s3 = 8191"
    using ok3 by (simp add: samplesAvailable_mod rp3 wp3 AUDIO_BUFFER_FRAMES_def)
  have ws: "writeSpace s3 = 8192"
    by (simp add: writeSpace_def rp3 wp3 AUDIO_BUFFER_FRAMES_def)
  show ?thesis by (simp add: res rp3 wp3 av ws)
qed

text \<open>Everywhere else in the index range the two computations do add up to \<open>capacity - 1\<close>.\<close>

lemma write_space_sound:
  assumes "ring_ok s" "readPos s \<noteq> writePos s + 1"
  shows "writeSpace s + samplesAvailable s = AUDIO_BUFFER_FRAMES - 1"
  using assms unfolding ring_ok_def writeSpace_def samplesAvailable_def Let_def AUDIO_BUFFER_FRAMES_def
  by auto


lemma full_at_5_fill:
  "map_sum id (\<lambda>(evs, s). (evs, readPos s, writePos s, slot s 5, samplesAvailable s))
       (fillAudioBuffer (Pulled [9, 9, 9, 9] [0, 0]) full_at_5)
     = Inr ([], 5, 6, [9, 9], 1)"
  by (simp add: fillAudioBuffer_def fillBody_def maxFramesToPull_def writeSpace_def
      pull_chunk_multiplexed_def array_store_def copyFrames.simps pushFrame_def copyChannels.simps
      array_read_def array_write_def full_at_5_def connected_state_def idle_state_def
      samplesAvailable_def slot_def bufferMask_def AUDIO_BUFFER_FRAMES_def MAX_CHANNELS_def
      AUDIO_BUFFER_SIZE_def PULL_BUFFER_SIZE_def TIMESTAMP_BUFFER_SIZE_def Let_def
      upt_conv_Cons del: upt_Suc)

text \<open>
  C2, at its failing input. From an empty buffer whose indices stand at 5, pushing exactly
  \<open>capacity - 1\<close> frames with no pop in between leaves \<open>readPos = 5\<close>, \<open>writePos = 4\<close>, and
  the write-space computation returns 8192 instead of 0, so the fill task asks for 512 more
  frames. In that full state a fill that pulls two frames is not rejected: it overwrites the
  oldest unread frame (slot 5, the sevens) with the new samples, \<open>writePos\<close> passes
  \<open>readPos\<close>, and of 8191 unread frames one is left.
\<close>

theorem full_buffer_overwritten:
  "map_sum id (\<lambda>s. (readPos s, writePos s, samplesAvailable s, writeSpace s, maxFramesToPull s))
       (offerFrames (replicate 8191 [7, 7]) empty_at_5)
     = Inr (5, 4, 8191, 8192, 512)
   \<and> (readPos full_at_5, writePos full_at_5, samplesAvailable full_at_5, slot full_at_5 5)
     = (5, 4, 8191, [7, 7])
   \<and> map_sum id (\<lambda>(evs, s). (evs, readPos s, writePos s, slot s 5, samplesAvailable s))
       (fillAudioBuffer (Pulled [9, 9, 9, 9] [0, 0]) full_at_5)
     = Inr ([], 5, 6, [9, 9], 1)"
proof -
  have ok: "ring_ok empty_at_5"
    by (simp add: ring_ok_def empty_at_5_def connected_state_def idle_state_def
        MAX_CHANNELS_def AUDIO_BUFFER_FRAMES_def)
  have wf: "\<forall>fr\<in>set (replicate 8191 [7, 7::real]). length fr = nat (audioChannels empty_at_5)"
    by (simp add: empty_at_5_def connected_fields)
  from pushFrames_positions[OF ok wf] obtain s1 where
    p: "pushFrames (replicate 8191 [7, 7]) empty_at_5 = Inr s1" and ok1: "ring_ok s1"
    and rp: "readPos s1 = 5" and wp: "writePos s1 = 4"
    by (auto simp: empty_at_5_def AUDIO_BUFFER_FRAMES_def)
  have av: "samplesAvailable s1 = 8191"
    using ok1 by (simp add: samplesAvailable_mod rp wp AUDIO_BUFFER_FRAMES_def)
  have ws: "writeSpace s1 = 8192" by (simp add: writeSpace_def rp wp AUDIO_BUFFER_FRAMES_def)
  have e0: "samplesAvailable empty_at_5 = 0"
    using ok by (simp add: samplesAvailable_mod empty_at_5_def)
  have room: "samplesAvailable empty_at_5 + int (length (replicate 8191 [7, 7::real]))
        \<le> AUDIO_BUFFER_FRAMES - 1"
    by (simp add: e0 AUDIO_BUFFER_FRAMES_def)
  have o: "offerFrames (replicate 8191 [7, 7]) empty_at_5 = Inr s1"
    using offerFrames_accepts[OF ok wf room] p by simp
  have first: "map_sum id (\<lambda>s. (readPos s, writePos s, samplesAvailable s, writeSpace s, maxFramesToPull s))
       (offerFrames (replicate 8191 [7, 7]) empty_at_5) = Inr (5, 4, 8191, 8192, 512)"
    by (simp add: o rp wp av ws maxFramesToPull_def)
  have second: "(readPos full_at_5, writePos full_at_5, samplesAvailable full_at_5, slot full_at_5 5)
     = (5, 4, 8191, [7, 7])"
    by (simp add: full_at_5_def connected_state_def idle_state_def samplesAvailable_def slot_def
        AUDIO_BUFFER_FRAMES_def upt_conv_Cons del: upt_Suc)
  show ?thesis using first second full_at_5_fill by (intro conjI)
qed

text \<open>
  The full state passes the entry guard of the fill task, and the fill moves \<open>writePos\<close>
  from 4 to 6, across \<open>readPos = 5\<close>.
\<close>

theorem full_buffer_overwritten_witness:
  "audioStreamActive full_at_5 \<and> audioInlet full_at_5 = Live (audio_source 2)
   \<and> audioChannels full_at_5 = 2
   \<and> map_sum id (writePos \<circ> snd) (fillAudioBuffer (Pulled [9, 9, 9, 9] [0, 0]) full_at_5) = Inr 6"
proof -
  from full_buffer_overwritten
  have "map_sum id (\<lambda>(evs, s). (evs, readPos s, writePos s, slot s 5, samplesAvailable s))
       (fillAudioBuffer (Pulled [9, 9, 9, 9] [0, 0]) full_at_5)
     = Inr ([], 5, 6, [9, 9], 1)"
    by simp
  then have "map_sum id (writePos \<circ> snd) (fillAudioBuffer (Pulled [9, 9, 9, 9] [0, 0]) full_at_5) = Inr 6"
    by (cases "fillAudioBuffer (Pulled [9, 9, 9, 9] [0, 0]) full_at_5") auto
  then show ?thesis
    by (simp add: full_at_5_def connected_state_def idle_state_def)
qed

section \<open>Round trip through the fill task\<close>

lemma unread_extend:
  assumes ok: "ring_ok s" and ok': "ring_ok s'" and rp: "readPos s' = readPos s"
    and wp: "writePos s' = (writePos s + 1) mod AUDIO_BUFFER_FRAMES"
    and same: "slot s' (writePos s) = fr"
    and other: "\<And>q. q \<noteq> writePos s \<Longrightarrow> slot s' q = slot s q"
    and room: "samplesAvailable s < AUDIO_BUFFER_FRAMES - 1"
  shows "unread s' = unread s @ [fr]"
proof -
  let ?a = "samplesAvailable s"
  have a: "0 \<le> ?a" using samplesAvailable_range[OF ok] by simp
  have av': "samplesAvailable s' = ?a + 1"
    using push_available[OF ok ok' rp wp] a room by simp
  have n: "nat (samplesAvailable s') = Suc (nat ?a)" using av' a by simp
  have wpr: "0 \<le> writePos s" "writePos s < AUDIO_BUFFER_FRAMES" using ok by (simp_all add: ring_ok_def)
  have last: "(readPos s + ?a) mod AUDIO_BUFFER_FRAMES = writePos s"
  proof -
    have "(readPos s + ?a) mod AUDIO_BUFFER_FRAMES
        = (readPos s + (writePos s - readPos s) mod AUDIO_BUFFER_FRAMES) mod AUDIO_BUFFER_FRAMES"
      by (simp add: samplesAvailable_mod[OF ok])
    also have "\<dots> = (readPos s + (writePos s - readPos s)) mod AUDIO_BUFFER_FRAMES"
      by (simp add: mod_add_right_eq)
    finally show ?thesis using wpr by simp
  qed
  have before: "\<And>j. j < nat ?a \<Longrightarrow>
      slot s' ((readPos s + int j) mod AUDIO_BUFFER_FRAMES) = slot s ((readPos s + int j) mod AUDIO_BUFFER_FRAMES)"
  proof (rule other)
    fix j assume j: "j < nat ?a"
    show "(readPos s + int j) mod AUDIO_BUFFER_FRAMES \<noteq> writePos s"
    proof
      assume "(readPos s + int j) mod AUDIO_BUFFER_FRAMES = writePos s"
      then have "(readPos s + int j) mod AUDIO_BUFFER_FRAMES = (readPos s + ?a) mod AUDIO_BUFFER_FRAMES"
        using last by simp
      then have "int j = ?a"
        by (rule ring_index_inj) (use j a room in auto)
      then show False using j by simp
    qed
  qed
  have "unread s' = map (\<lambda>j. slot s' ((readPos s + int j) mod AUDIO_BUFFER_FRAMES)) [0..<nat ?a]
                    @ [slot s' ((readPos s + int (nat ?a)) mod AUDIO_BUFFER_FRAMES)]"
    by (simp add: unread_def n rp)
  also have "map (\<lambda>j. slot s' ((readPos s + int j) mod AUDIO_BUFFER_FRAMES)) [0..<nat ?a] = unread s"
    unfolding unread_def by (rule map_cong) (simp_all add: before)
  also have "slot s' ((readPos s + int (nat ?a)) mod AUDIO_BUFFER_FRAMES) = fr"
    using a last same by simp
  finally show ?thesis .
qed

lemma length_pulled: "length (pulled s f) = nat (audioChannels s)"
  by (simp add: pulled_def)

lemma pushFrame_step:
  assumes ok: "ring_ok s" and f: "0 \<le> f" "f * audioChannels s + audioChannels s \<le> PULL_BUFFER_SIZE"
  shows "\<exists>s'. pushFrame f s = Inr s' \<and> ring_ok s' \<and> readPos s' = readPos s
            \<and> writePos s' = (writePos s + 1) mod AUDIO_BUFFER_FRAMES
            \<and> audioChannels s' = audioChannels s \<and> pullBuffer s' = pullBuffer s
            \<and> audioInlet s' = audioInlet s
            \<and> slot s' (writePos s) = pulled s f
            \<and> (\<forall>q. q \<noteq> writePos s \<longrightarrow> slot s' q = slot s q)"
proof -
  let ?K = "audioChannels s"
  have K: "0 < ?K" "?K \<le> MAX_CHANNELS" using ok by (simp_all add: ring_ok_def)
  have wp: "writePos s mod AUDIO_BUFFER_FRAMES = writePos s"
    using ok by (simp add: ring_ok_def)
  have eq: "putFrame (writePos s) ?K (\<lambda>j. pullBuffer s (f * ?K + j)) (audioBuffer s)
          = putFrame (writePos s) ?K (\<lambda>j. pulled s f ! nat j) (audioBuffer s)"
    by (rule putFrame_cong) (simp add: pulled_def)
  let ?s' = "s\<lparr>audioBuffer := putFrame (writePos s) ?K (\<lambda>j. pulled s f ! nat j) (audioBuffer s),
            writePos := (writePos s + 1) mod AUDIO_BUFFER_FRAMES\<rparr>"
  have r: "pushFrame f s = Inr ?s'"
    using pushFrame_result[OF K f] by (simp add: wp eq)
  have ok': "ring_ok ?s'" using ok frames_pos by (simp add: ring_ok_def)
  have same: "slot ?s' (writePos s) = pulled s f"
    by (rule slot_put_same[where s=s and ab="audioBuffer s"]) (simp_all add: length_pulled)
  have other: "\<forall>q. q \<noteq> writePos s \<longrightarrow> slot ?s' q = slot s q"
    by (intro allI impI slot_put_other[where p="writePos s" and src="\<lambda>j. pulled s f ! nat j"]) simp_all
  show ?thesis using r ok' same other by (intro exI[where x="?s'"]) simp
qed

lemma pulled_cong:
  "pullBuffer s' = pullBuffer s \<Longrightarrow> audioChannels s' = audioChannels s \<Longrightarrow> pulled s' f = pulled s f"
  by (simp add: pulled_def)

lemma copyFrames_unread:
  "ring_ok s \<Longrightarrow> 0 \<le> f \<Longrightarrow> f \<le> n \<Longrightarrow> n * audioChannels s \<le> PULL_BUFFER_SIZE \<Longrightarrow>
   samplesAvailable s + (n - f) \<le> AUDIO_BUFFER_FRAMES - 1 \<Longrightarrow>
   \<exists>s'. copyFrames f n s = Inr s' \<and> ring_ok s' \<and> readPos s' = readPos s
      \<and> audioChannels s' = audioChannels s \<and> audioInlet s' = audioInlet s
      \<and> unread s' = unread s @ map (\<lambda>i. pulled s (int i)) [nat f..<nat n]"
proof (induction f n s rule: copyFrames.induct)
  case (1 f n s)
  show ?case
  proof (cases "f < n")
    case False
    then have "f = n" using 1(4) by simp
    then show ?thesis using 1(2) by (subst copyFrames.simps) simp
  next
    case True
    let ?K = "audioChannels s"
    have K: "0 < ?K" using 1(2) by (simp add: ring_ok_def)
    have "(f + 1) * ?K \<le> n * ?K"
      using True K by (intro mult_right_mono) auto
    then have sz: "f * ?K + ?K \<le> PULL_BUFFER_SIZE" using 1(5) by (simp add: algebra_simps)
    from pushFrame_step[OF 1(2,3) sz] obtain s1 where
      pf: "pushFrame f s = Inr s1" and ok1: "ring_ok s1" and rp1: "readPos s1 = readPos s"
      and wp1: "writePos s1 = (writePos s + 1) mod AUDIO_BUFFER_FRAMES"
      and K1: "audioChannels s1 = ?K" and pb1: "pullBuffer s1 = pullBuffer s"
      and in1: "audioInlet s1 = audioInlet s"
      and same: "slot s1 (writePos s) = pulled s f"
      and other: "\<And>q. q \<noteq> writePos s \<Longrightarrow> slot s1 q = slot s q"
      by blast
    have room: "samplesAvailable s < AUDIO_BUFFER_FRAMES - 1" using 1(6) True by simp
    have un1: "unread s1 = unread s @ [pulled s f]"
      by (rule unread_extend[OF 1(2) ok1 rp1 wp1 same other room])
    have av1: "samplesAvailable s1 = samplesAvailable s + 1"
      using push_available[OF 1(2) ok1 rp1 wp1] room samplesAvailable_range[OF 1(2)] by simp
    have "\<exists>s'. copyFrames (f + 1) n s1 = Inr s' \<and> ring_ok s' \<and> readPos s' = readPos s1
      \<and> audioChannels s' = audioChannels s1 \<and> audioInlet s' = audioInlet s1
      \<and> unread s' = unread s1 @ map (\<lambda>i. pulled s1 (int i)) [nat (f + 1)..<nat n]"
      by (rule 1(1)[OF True pf ok1]) (use 1(3-6) True K1 av1 in simp_all)
    then obtain s' where
      cf: "copyFrames (f + 1) n s1 = Inr s'" and r: "ring_ok s'" "readPos s' = readPos s1"
      "audioChannels s' = audioChannels s1" "audioInlet s' = audioInlet s1"
      and un: "unread s' = unread s1 @ map (\<lambda>i. pulled s1 (int i)) [nat (f + 1)..<nat n]"
      by blast
    have pl: "\<And>i. pulled s1 i = pulled s i" by (rule pulled_cong[OF pb1 K1])
    have idx: "[nat f..<nat n] = nat f # [nat (f + 1)..<nat n]"
      using True 1(3) by (simp add: upt_conv_Cons nat_add_distrib)
    have "unread s' = unread s @ map (\<lambda>i. pulled s (int i)) [nat f..<nat n]"
      unfolding un un1 idx pl using 1(3) by simp
    then show ?thesis
      using cf r rp1 K1 in1 by (subst copyFrames.simps) (simp add: True pf)
  qed
qed

lemma length_concat_uniform:
  "\<forall>x\<in>set xss. length x = k \<Longrightarrow> length (concat xss) = length xss * k"
  by (induction xss) auto

lemma nth_concat_uniform:
  "\<forall>x\<in>set xss. length x = k \<Longrightarrow> i < length xss \<Longrightarrow> j < k \<Longrightarrow>
   concat xss ! (i * k + j) = xss ! i ! j"
proof (induction xss arbitrary: i)
  case Nil
  then show ?case by simp
next
  case (Cons x xss)
  show ?case
  proof (cases i)
    case 0
    then show ?thesis using Cons.prems by (simp add: nth_append)
  next
    case (Suc i')
    have "concat (x # xss) ! (i * k + j) = concat xss ! (i' * k + j)"
      using Cons.prems(1) Suc by (simp add: nth_append)
    then show ?thesis using Cons.IH[of i'] Cons.prems Suc by simp
  qed
qed

lemma write_space_value:
  assumes "ring_ok s" "samplesAvailable s < AUDIO_BUFFER_FRAMES - 1"
  shows "writeSpace s = AUDIO_BUFFER_FRAMES - 1 - samplesAvailable s"
  using assms
  unfolding ring_ok_def samplesAvailable_def writeSpace_def Let_def AUDIO_BUFFER_FRAMES_def
  by (auto split: if_splits)

lemma unread_scratch:
  "unread (s\<lparr>pullBuffer := pb, timestampBuffer := tb\<rparr>) = unread s"
  "unread (s\<lparr>reportCounter := c\<rparr>) = unread s"
  by (simp_all add: unread_def slot_def samplesAvailable_def)

lemma pulled_batch:
  assumes wf: "\<forall>fr\<in>set batch. length fr = nat K" and K: "0 < K" and i: "i < length batch"
    and pb: "pullBuffer s1 =
      (\<lambda>j. if 0 \<le> j \<and> j < int (length (concat batch)) then concat batch ! nat j else old j)"
    and K1: "audioChannels s1 = K"
  shows "pulled s1 (int i) = batch ! i"
proof (rule nth_equalityI)
  show "length (pulled s1 (int i)) = length (batch ! i)"
    using wf i K1 by (simp add: length_pulled)
next
  fix ch assume "ch < length (pulled s1 (int i))"
  then have ch: "ch < nat K" using K1 by (simp add: length_pulled)
  define k where "k = nat K"
  have Kk: "K = int k" using K by (simp add: k_def)
  have len: "length (concat batch) = length batch * k"
    using length_concat_uniform[OF wf] by (simp add: k_def)
  have "i * k + ch < i * k + k" using ch by (simp add: k_def)
  also have "\<dots> = (i + 1) * k" by simp
  also have "\<dots> \<le> length batch * k" using i by (intro mult_le_mono1) simp
  finally have lt: "i * k + ch < length batch * k" .
  have idx: "int i * K + int ch = int (i * k + ch)" by (simp add: Kk)
  have "pulled s1 (int i) ! ch = pullBuffer s1 (int i * K + int ch)"
    using ch K1 by (simp add: pulled_def)
  also have "\<dots> = pullBuffer s1 (int (i * k + ch))" by (simp only: idx)
  also have "\<dots> = concat batch ! (i * k + ch)"
    using lt len by (simp add: pb del: of_nat_add of_nat_mult)
  also have "\<dots> = batch ! i ! ch"
    using nth_concat_uniform[OF wf i ch] by (simp add: k_def)
  finally show "pulled s1 (int i) ! ch = batch ! i ! ch" .
qed

lemma fill_batch_unread:
  assumes ok: "ring_ok s" and live: "audioInlet s = Live info"
    and wf: "\<forall>fr\<in>set batch. length fr = nat (audioChannels s)"
    and sz: "length batch \<le> 512"
    and room: "samplesAvailable s + int (length batch) \<le> AUDIO_BUFFER_FRAMES - 1"
  shows "\<exists>evs s'. fillBatch batch s = Inr (evs, s') \<and> ring_ok s' \<and> audioInlet s' = audioInlet s
           \<and> audioChannels s' = audioChannels s \<and> readPos s' = readPos s
           \<and> unread s' = unread s @ batch"
proof -
  let ?K = "audioChannels s"
  let ?n = "maxFramesToPull s"
  let ?len = "int (length batch)"
  have K: "0 < ?K" "?K \<le> MAX_CHANNELS" and act: "audioStreamActive s"
    using ok by (simp_all add: ring_ok_def)
  have guard: "\<not> (\<not> audioStreamActive s \<or> audioInlet s = Null \<or> ?K \<le> 0 \<or> ?K > MAX_CHANNELS)"
    using K act live by simp
  show ?thesis
  proof (cases "?n \<le> 0")
    case True
    have "batch = []"
    proof (rule ccontr)
      assume "batch \<noteq> []"
      then have "samplesAvailable s < AUDIO_BUFFER_FRAMES - 1" using room by (cases batch) auto
      then show False using write_space_pos[OF ok] True by simp
    qed
    moreover have "fillBatch batch s = Inr ([], s)"
      using guard True by (simp add: fillBatch_def fillAudioBuffer_def fillBody_def)
    ultimately show ?thesis using ok by simp
  next
    case False
    have fits: "?len \<le> ?n"
    proof (cases "batch = []")
      case True
      then show ?thesis using False by simp
    next
      case ne: False
      then have "samplesAvailable s < AUDIO_BUFFER_FRAMES - 1" using room by (cases batch) auto
      then have "writeSpace s = AUDIO_BUFFER_FRAMES - 1 - samplesAvailable s"
        by (rule write_space_value[OF ok])
      then show ?thesis using room sz by (simp add: maxFramesToPull_def)
    qed
    define k where "k = nat ?K"
    have Kk: "?K = int k" using K by (simp add: k_def)
    have lc: "length (concat batch) = length batch * k"
      using length_concat_uniform[OF wf] by (simp add: k_def)
    have "?len * ?K \<le> ?n * ?K" using fits K by (intro mult_right_mono) auto
    then have "int (length batch * k) \<le> ?n * ?K" by (simp add: Kk)
    moreover have "0 \<le> ?n * ?K" using False K by simp
    ultimately have "length (concat batch) \<le> nat (?n * ?K)"
      unfolding lc by (simp only: le_nat_iff)
    then have tk: "take (nat (?n * ?K)) (concat batch) = concat batch" by simp
    have n512: "?n \<le> 512" by (simp add: maxFramesToPull_def)
    have "?len * ?K \<le> 512 * ?K" using sz K by (intro mult_right_mono) auto
    also have "\<dots> \<le> 4096" using K by (simp add: MAX_CHANNELS_def)
    finally have "?len * ?K \<le> 4096" .
    then have d2: "int (length (concat batch)) \<le> 4096"
      by (simp add: lc Kk)
    let ?ts = "take (nat ?n) (replicate (length batch) (0::real))"
    have "length ?ts \<le> length batch" by simp
    then have t2: "int (length ?ts) \<le> 512" using sz by linarith
    define pb where "pb = (\<lambda>j. if 0 \<le> j \<and> j < int (length (concat batch))
                                then concat batch ! nat j else pullBuffer s j)"
    have pbs: "array_store PULL_BUFFER_SIZE (pullBuffer s) (concat batch) = Inr pb"
      using d2 by (simp add: array_store_def PULL_BUFFER_SIZE_def MAX_CHANNELS_def pb_def)
    obtain tb where tb: "array_store TIMESTAMP_BUFFER_SIZE (timestampBuffer s) ?ts = Inr tb"
      using t2 by (simp add: array_store_def TIMESTAMP_BUFFER_SIZE_def del: take_replicate)
    define s1 where "s1 = s\<lparr>pullBuffer := pb, timestampBuffer := tb\<rparr>"
    define nr where "nr = int (length (concat batch))"
    have pull: "pull_chunk_multiplexed (Pulled (concat batch) (replicate (length batch) 0)) (?n * ?K) ?n s
        = Inr (nr, s1)"
      by (simp add: pull_chunk_multiplexed_def live tk pbs tb s1_def nr_def del: length_take take_replicate)
    have s1: "audioChannels s1 = ?K" "readPos s1 = readPos s" "writePos s1 = writePos s"
      "audioStreamActive s1" "audioInlet s1 = audioInlet s" "pullBuffer s1 = pb"
      "samplesAvailable s1 = samplesAvailable s" "unread s1 = unread s"
      using act by (simp_all add: s1_def unread_scratch samplesAvailable_def)
    have ok1: "ring_ok s1" using ok by (simp add: ring_ok_def s1_def)
    have fp: "nr div audioChannels s1 = ?len"
      using K by (simp add: nr_def lc Kk s1(1))
    show ?thesis
    proof (cases "batch = []")
      case True
      have nofr: "\<not> 0 < nr div audioChannels s1" using fp True by simp
      have "fillBody (Pulled (concat batch) (replicate (length batch) 0)) s = Inr ([], s1)"
        using False nofr by (simp add: fillBody_def pull Let_def)
      then show ?thesis
        using True guard ok1 s1 by (simp add: fillBatch_def fillAudioBuffer_def)
    next
      case ne: False
      have psz: "?len * audioChannels s1 \<le> PULL_BUFFER_SIZE"
        using d2 by (simp add: lc Kk s1(1) PULL_BUFFER_SIZE_def MAX_CHANNELS_def)
      have rm: "samplesAvailable s1 + (?len - 0) \<le> AUDIO_BUFFER_FRAMES - 1"
        using room by (simp add: s1(7))
      from copyFrames_unread[OF ok1 _ _ psz rm] obtain s2 where
        cf: "copyFrames 0 ?len s1 = Inr s2" and ok2: "ring_ok s2" and rp2: "readPos s2 = readPos s1"
        and K2: "audioChannels s2 = audioChannels s1" and in2: "audioInlet s2 = audioInlet s1"
        and un2: "unread s2 = unread s1 @ map (\<lambda>i. pulled s1 (int i)) [nat 0..<nat ?len]"
        by auto
      have "map (\<lambda>i. pulled s1 (int i)) [0..<length batch] = map (\<lambda>i. batch ! i) [0..<length batch]"
      proof (rule map_cong)
        fix i assume "i \<in> set [0..<length batch]"
        then have i: "i < length batch" by simp
        show "pulled s1 (int i) = batch ! i"
          by (rule pulled_batch[OF wf K(1) i _ s1(1), where old="pullBuffer s"])
             (simp add: s1(6) pb_def)
      qed simp
      also have "\<dots> = batch" by (rule map_nth)
      finally have mp0: "map (\<lambda>i. pulled s1 (int i)) [0..<length batch] = batch" .
      have rng: "[nat 0..<nat ?len] = [0..<length batch]" by simp
      have mp: "map (\<lambda>i. pulled s1 (int i)) [nat 0..<nat ?len] = batch"
        unfolding rng by (rule mp0)
      let ?s3 = "s2\<lparr>reportCounter := reportCounter s2 + 1\<rparr>"
      have ok3: "ring_ok ?s3" using ok2 by (simp add: ring_ok_def)
      have un3: "unread ?s3 = unread s @ batch"
        using un2[unfolded mp] by (simp add: unread_scratch s1(8))
      have pos: "0 < ?len" using ne by simp
      have "\<exists>evs. fillBody (Pulled (concat batch) (replicate (length batch) 0)) s = Inr (evs, ?s3)"
        using False pos by (simp add: fillBody_def pull fp Let_def cf)
      then obtain evs where
        "fillBody (Pulled (concat batch) (replicate (length batch) 0)) s = Inr (evs, ?s3)" by blast
      then have "fillBatch batch s = Inr (evs, ?s3)"
        using guard by (simp add: fillBatch_def fillAudioBuffer_def)
      then show ?thesis
        using ok3 un3 in2 K2 rp2 s1 by simp
    qed
  qed
qed

lemma available_unread:
  "ring_ok s \<Longrightarrow> samplesAvailable s = int (length (unread s))"
  using samplesAvailable_range[of s] by (simp add: length_unread)

lemma fillBatches_unread:
  "ring_ok s \<Longrightarrow> audioInlet s = Live info \<Longrightarrow>
   \<forall>b\<in>set batches. length b \<le> 512 \<and> (\<forall>fr\<in>set b. length fr = nat (audioChannels s)) \<Longrightarrow>
   samplesAvailable s + int (length (concat batches)) \<le> AUDIO_BUFFER_FRAMES - 1 \<Longrightarrow>
   \<exists>s'. fillBatches batches s = Inr s' \<and> ring_ok s' \<and> audioInlet s' = Live info
      \<and> audioChannels s' = audioChannels s \<and> readPos s' = readPos s
      \<and> unread s' = unread s @ concat batches"
proof (induction batches arbitrary: s)
  case Nil
  then show ?case by simp
next
  case (Cons b bs)
  have wf: "\<forall>fr\<in>set b. length fr = nat (audioChannels s)" and sz: "length b \<le> 512"
    using Cons.prems(3) by simp_all
  have room: "samplesAvailable s + int (length b) \<le> AUDIO_BUFFER_FRAMES - 1"
    using Cons.prems(4) by simp
  from fill_batch_unread[OF Cons.prems(1,2) wf sz room] obtain evs s1 where
    fb: "fillBatch b s = Inr (evs, s1)" and ok1: "ring_ok s1" and in1: "audioInlet s1 = audioInlet s"
    and K1: "audioChannels s1 = audioChannels s" and rp1: "readPos s1 = readPos s"
    and un1: "unread s1 = unread s @ b"
    by blast
  have av1: "samplesAvailable s1 = samplesAvailable s + int (length b)"
    using available_unread[OF ok1] available_unread[OF Cons.prems(1)] un1 by simp
  have "\<exists>s'. fillBatches bs s1 = Inr s' \<and> ring_ok s' \<and> audioInlet s' = Live info
      \<and> audioChannels s' = audioChannels s1 \<and> readPos s' = readPos s1
      \<and> unread s' = unread s1 @ concat bs"
    by (rule Cons.IH[OF ok1]) (use Cons.prems(2,3,4) in1 K1 av1 in auto)
  then show ?case using fb K1 rp1 un1 by auto
qed

lemma fillBatches_append:
  "fillBatches (bs @ cs) s =
     (case fillBatches bs s of Inl e \<Rightarrow> Inl e | Inr s' \<Rightarrow> fillBatches cs s')"
  by (induction bs arbitrary: s) (auto split: sum.splits prod.splits)

lemma renderLoop_drain:
  "ring_ok s \<Longrightarrow> unread s = fs \<Longrightarrow> n + length fs \<le> audioFrames ctx \<Longrightarrow>
   \<exists>s'. renderLoop ctx n s =
          Inr (concat (map (\<lambda>i. frameWrites (n + i) (min (nat (audioChannels s)) (audioOutChannels ctx)) (fs ! i))
                        [0..<length fs])
               @ concat (map (\<lambda>i. map (\<lambda>c. AudioWrite i c 0) [0..<audioOutChannels ctx])
                        [n + length fs..<audioFrames ctx]), s')
        \<and> samplesAvailable s' = 0"
proof (induction fs arbitrary: s n)
  case Nil
  have av: "samplesAvailable s = 0"
    using available_unread[OF Nil.prems(1)] Nil.prems(2) by simp
  then have "\<not> (audioStreamActive s \<and> 0 < samplesAvailable s)" by simp
  from renderLoop_silent[OF this, of ctx n] show ?case using av by simp
next
  case (Cons fr fs)
  let ?s1 = "s\<lparr>readPos := (readPos s + 1) mod AUDIO_BUFFER_FRAMES\<rparr>"
  let ?m = "min (nat (audioChannels s)) (audioOutChannels ctx)"
  let ?sil = "\<lambda>k. concat (map (\<lambda>i. map (\<lambda>c. AudioWrite i c 0) [0..<audioOutChannels ctx])
                        [k..<audioFrames ctx])"
  have pos: "0 < samplesAvailable s"
    using Cons.prems(2) length_unread[of s] by (cases "0 < samplesAvailable s") auto
  have un: "unread s = slot s (readPos s) # unread ?s1" by (rule unread_pop[OF Cons.prems(1) pos])
  then have hd: "slot s (readPos s) = fr" and tl: "unread ?s1 = fs"
    using Cons.prems(2) by simp_all
  have step: "render_frame ctx n s = Inr (frameWrites n ?m fr, ?s1)"
    using pop_step[OF Cons.prems(1) pos] hd by simp
  have "\<exists>s'. renderLoop ctx (Suc n) ?s1 =
          Inr (concat (map (\<lambda>i. frameWrites (Suc n + i) (min (nat (audioChannels ?s1)) (audioOutChannels ctx)) (fs ! i))
                        [0..<length fs])
               @ concat (map (\<lambda>i. map (\<lambda>c. AudioWrite i c 0) [0..<audioOutChannels ctx])
                        [Suc n + length fs..<audioFrames ctx]), s')
        \<and> samplesAvailable s' = 0"
    by (rule Cons.IH[OF pop_ring_ok[OF Cons.prems(1)] tl]) (use Cons.prems(3) in simp)
  then obtain s' where
    rl: "renderLoop ctx (Suc n) ?s1 =
          Inr (concat (map (\<lambda>i. frameWrites (Suc n + i) ?m (fs ! i)) [0..<length fs])
               @ ?sil (Suc n + length fs), s')"
    and av: "samplesAvailable s' = 0"
    by auto
  have lt: "n < audioFrames ctx" using Cons.prems(3) by simp
  have ex: "concat (map (\<lambda>i. frameWrites (n + i) ?m ((fr # fs) ! i)) [0..<length (fr # fs)])
      = frameWrites n ?m fr @ concat (map (\<lambda>i. frameWrites (Suc n + i) ?m (fs ! i)) [0..<length fs])"
    by (simp add: map_upt_Suc del: upt_Suc)
  have sn: "n + length (fr # fs) = Suc n + length fs" by simp
  show ?case
    unfolding ex sn using av by (subst renderLoop.simps) (simp add: lt step rl)
qed

text \<open>
  C3, as amended. An active session with a live inlet and an empty buffer is filled by
  successive invocations of the fill task, each pull delivering one batch of at most 512
  frames of \<open>audioChannels\<close> samples, at most \<open>capacity - 1\<close> frames in all; then one block of as
  many output ticks is rendered. Every invocation accepts its whole batch, and the ticks
  write the frames back in the order they were delivered, each sample of the channels below
  \<open>min audioChannels audioOutChannels\<close> equal to the one delivered; the buffer is empty again
  afterwards.
\<close>

theorem round_trip:
  assumes "ring_ok s" and "audioInlet s = Live info" and "readPos s = writePos s"
    and "\<forall>b\<in>set batches. length b \<le> 512 \<and> (\<forall>fr\<in>set b. length fr = nat (audioChannels s))"
    and "int (length (concat batches)) \<le> AUDIO_BUFFER_FRAMES - 1"
    and "audioFrames ctx = length (concat batches)"
  shows "\<exists>s'. roundTrip ctx batches s =
           Inr (concat (map (\<lambda>n. frameWrites n (min (nat (audioChannels s)) (audioOutChannels ctx))
                                   (concat batches ! n))
                          [0..<length (concat batches)]), s')
         \<and> samplesAvailable s' = 0"
proof -
  have av: "samplesAvailable s = 0"
    using assms(1,3) by (simp add: samplesAvailable_def)
  then have un: "unread s = []" by (simp add: unread_def)
  have room: "samplesAvailable s + int (length (concat batches)) \<le> AUDIO_BUFFER_FRAMES - 1"
    using assms(5) av by simp
  from fillBatches_unread[OF assms(1,2,4) room] obtain s1 where
    fb: "fillBatches batches s = Inr s1" and ok1: "ring_ok s1"
    and K1: "audioChannels s1 = audioChannels s" and un1: "unread s1 = concat batches"
    using un by auto
  have le: "0 + length (concat batches) \<le> audioFrames ctx" using assms(6) by simp
  from renderLoop_drain[OF ok1 un1 le] obtain s' where
    "renderLoop ctx 0 s1 =
       Inr (concat (map (\<lambda>i. frameWrites (0 + i) (min (nat (audioChannels s1)) (audioOutChannels ctx))
                               (concat batches ! i))
                      [0..<length (concat batches)])
            @ concat (map (\<lambda>i. map (\<lambda>c. AudioWrite i c 0) [0..<audioOutChannels ctx])
                      [0 + length (concat batches)..<audioFrames ctx]), s')"
    and "samplesAvailable s' = 0"
    by blast
  then show ?thesis
    using fb K1 assms(6) by (simp add: roundTrip_def)
qed

lemma fill_one_frame:
  assumes ok: "ring_ok s" and live: "audioInlet s = Live info"
    and len: "length fr = nat (audioChannels s)" and sp: "0 < maxFramesToPull s"
  shows "\<exists>evs s'. fillBatch [fr] s = Inr (evs, s') \<and> ring_ok s' \<and> readPos s' = readPos s
           \<and> writePos s' = (writePos s + 1) mod AUDIO_BUFFER_FRAMES
           \<and> audioChannels s' = audioChannels s"
proof -
  let ?K = "audioChannels s"
  let ?n = "maxFramesToPull s"
  have K: "0 < ?K" "?K \<le> MAX_CHANNELS" and act: "audioStreamActive s"
    using ok by (simp_all add: ring_ok_def)
  have guard: "\<not> (\<not> audioStreamActive s \<or> audioInlet s = Null \<or> ?K \<le> 0 \<or> ?K > MAX_CHANNELS)"
    using K act live by simp
  have "1 * ?K \<le> ?n * ?K" using sp K by (intro mult_right_mono) auto
  then have "?K \<le> ?n * ?K" by simp
  then have "nat ?K \<le> nat (?n * ?K)" by (rule nat_mono)
  then have "length fr \<le> nat (?n * ?K)" using len by simp
  then have tk: "take (nat (?n * ?K)) fr = fr" by simp
  have d2: "int (length fr) \<le> 4096" using len K by (simp add: MAX_CHANNELS_def)
  let ?ts = "take (nat ?n) [0::real]"
  have t2: "int (length ?ts) \<le> 512" by simp
  define pb where "pb = (\<lambda>j. if 0 \<le> j \<and> j < int (length fr) then fr ! nat j else pullBuffer s j)"
  have pbs: "array_store PULL_BUFFER_SIZE (pullBuffer s) fr = Inr pb"
    using d2 by (simp add: array_store_def PULL_BUFFER_SIZE_def MAX_CHANNELS_def pb_def)
  obtain tb where tb: "array_store TIMESTAMP_BUFFER_SIZE (timestampBuffer s) ?ts = Inr tb"
    using t2 by (simp add: array_store_def TIMESTAMP_BUFFER_SIZE_def)
  define s1 where "s1 = s\<lparr>pullBuffer := pb, timestampBuffer := tb\<rparr>"
  have pull: "pull_chunk_multiplexed (Pulled fr [0]) (?n * ?K) ?n s = Inr (int (length fr), s1)"
    by (simp add: pull_chunk_multiplexed_def live tk pbs tb s1_def del: length_take)
  have s1: "audioChannels s1 = ?K" "readPos s1 = readPos s" "writePos s1 = writePos s"
    by (simp_all add: s1_def)
  have ok1: "ring_ok s1" using ok by (simp add: ring_ok_def s1_def)
  have fp: "int (length fr) div audioChannels s1 = 1"
    using K len by (simp add: s1(1))
  have psz: "0 * audioChannels s1 + audioChannels s1 \<le> PULL_BUFFER_SIZE"
    using K by (simp add: s1(1) PULL_BUFFER_SIZE_def MAX_CHANNELS_def)
  from pushFrame_step[OF ok1 _ psz] obtain s2 where
    pf: "pushFrame 0 s1 = Inr s2" and ok2: "ring_ok s2" and rp2: "readPos s2 = readPos s1"
    and wp2: "writePos s2 = (writePos s1 + 1) mod AUDIO_BUFFER_FRAMES"
    and K2: "audioChannels s2 = audioChannels s1"
    by auto
  have c1: "copyFrames 1 1 s2 = Inr s2" by (subst copyFrames.simps) simp
  have cf: "copyFrames 0 1 s1 = Inr s2"
    by (subst copyFrames.simps) (simp add: pf c1)
  let ?s3 = "s2\<lparr>reportCounter := reportCounter s2 + 1\<rparr>"
  have ok3: "ring_ok ?s3" using ok2 by (simp add: ring_ok_def)
  have "\<exists>evs. fillBody (Pulled fr [0]) s = Inr (evs, ?s3)"
    using sp by (simp add: fillBody_def pull fp Let_def cf)
  then obtain evs where "fillBody (Pulled fr [0]) s = Inr (evs, ?s3)" by blast
  then have "fillBatch [fr] s = Inr (evs, ?s3)"
    using guard by (simp add: fillBatch_def fillAudioBuffer_def)
  then show ?thesis
    using ok3 rp2 wp2 K2 s1 by simp
qed

lemma fill_rejected:
  "maxFramesToPull s \<le> 0 \<Longrightarrow> fillBatch batch s = Inr ([], s)"
  by (simp add: fillBatch_def fillAudioBuffer_def fillBody_def)

lemma singleton_writes:
  "\<forall>i<N. f i = [g i] \<Longrightarrow> concat (map f [0..<N]) = map g [0..<N]"
  by (induction N) simp_all

text \<open>
  Three stereo frames delivered in a batch of two and a batch of one, played on a stereo
  output.
\<close>

theorem round_trip_witness:
  "ring_ok (connected_state 2) \<and> audioInlet (connected_state 2) = Live (audio_source 2)
   \<and> readPos (connected_state 2) = writePos (connected_state 2)
   \<and> map_sum id fst (roundTrip \<lparr>audioFrames = 3, audioOutChannels = 2\<rparr>
                        [[[1, 2], [3, 4]], [[5, 6]]] (connected_state 2)) =
       Inr [AudioWrite 0 0 1, AudioWrite 0 1 2, AudioWrite 1 0 3, AudioWrite 1 1 4,
            AudioWrite 2 0 5, AudioWrite 2 1 6]"
proof -
  have h: "ring_ok (connected_state 2)" "audioInlet (connected_state 2) = Live (audio_source 2)"
    "readPos (connected_state 2) = writePos (connected_state 2)"
    by (simp_all add: ring_ok_connected connected_fields) (simp add: connected_state_def)
  have "\<exists>s'. roundTrip \<lparr>audioFrames = 3, audioOutChannels = 2\<rparr>
                [[[1, 2], [3, 4]], [[5, 6]]] (connected_state 2) =
           Inr ([AudioWrite 0 0 1, AudioWrite 0 1 2, AudioWrite 1 0 3, AudioWrite 1 1 4,
                 AudioWrite 2 0 5, AudioWrite 2 1 6], s')"
    using round_trip[OF h, of "[[[1, 2], [3, 4]], [[5, 6]]]" "\<lparr>audioFrames = 3, audioOutChannels = 2\<rparr>"]
    by (auto simp add: connected_fields frameWrites_def AUDIO_BUFFER_FRAMES_def upt_conv_Cons
          numeral_2_eq_2 numeral_3_eq_3 simp del: upt_Suc)
  then show ?thesis using h by auto
qed

lemma full_writePos:
  assumes "ring_ok s" "samplesAvailable s = AUDIO_BUFFER_FRAMES - 1"
  shows "writePos s = (if readPos s = 0 then AUDIO_BUFFER_FRAMES - 1 else readPos s - 1)"
  using assms
  unfolding ring_ok_def samplesAvailable_def Let_def AUDIO_BUFFER_FRAMES_def
  by (auto split: if_splits)

lemma offered_frames:
  fixes fr :: "real list"
  defines "first \<equiv> replicate 15 (replicate 512 fr) @ [replicate 511 fr]"
  shows "length (concat first) = 8191" "\<forall>b\<in>set first. length b \<le> 512 \<and> (\<forall>x\<in>set b. length x = length fr)"
    "\<forall>i<8191. concat first ! i = fr"
proof -
  show len: "length (concat first) = 8191"
    by (simp add: first_def length_concat sum_list_replicate)
  show "\<forall>b\<in>set first. length b \<le> 512 \<and> (\<forall>x\<in>set b. length x = length fr)"
    by (auto simp: first_def)
  have "\<forall>x\<in>set (concat first). x = fr" by (auto simp: first_def)
  then show "\<forall>i<8191. concat first ! i = fr"
    using len by (metis nth_mem)
qed

text \<open>
  C3 as stated allows \<open>capacity\<close> frames. Offered 8192 mono frames of value 1 from reset, the
  fill task accepts 8191 and returns at line 66 on the last (write space 0): the 8192 ticks
  play 8191 frames and then silence. Offered 8192 stereo frames with both indices at 5, the
  fill task accepts them all (write space 8192 at \<open>readPos = 5\<close>, \<open>writePos = 4\<close>), \<open>writePos\<close>
  wraps onto \<open>readPos\<close> and every one of the 8192 ticks plays silence.
\<close>

theorem capacity_frames_counterexample:
  "map_sum id fst (roundTrip \<lparr>audioFrames = 8192, audioOutChannels = 1\<rparr>
       (replicate 15 (replicate 512 [1]) @ [replicate 511 [1]] @ [[[1]]]) (connected_state 1))
     = Inr (map (\<lambda>n. AudioWrite n 0 1) [0..<8191] @ [AudioWrite 8191 0 0])
   \<and> map_sum id fst (roundTrip \<lparr>audioFrames = 8192, audioOutChannels = 2\<rparr>
       (replicate 15 (replicate 512 [1, 2]) @ [replicate 511 [1, 2]] @ [[[1, 2]]]) empty_at_5)
     = Inr (concat (map (\<lambda>n. [AudioWrite n 0 0, AudioWrite n 1 0]) [0..<8192]))"
proof
  define first :: "real list list list" where
    "first = replicate 15 (replicate 512 [1]) @ [replicate 511 [1]]"
  define ctx where "ctx = \<lparr>audioFrames = 8192, audioOutChannels = 1\<rparr>"
  note fr = offered_frames[of "[1::real]", folded first_def]
  let ?s = "connected_state 1"
  have ok: "ring_ok ?s" by (simp add: ring_ok_connected)
  have live: "audioInlet ?s = Live (audio_source 1)" by (simp add: connected_state_def)
  have av: "samplesAvailable ?s = 0" by (simp add: samplesAvailable_def connected_fields)
  have wf: "\<forall>b\<in>set first. length b \<le> 512 \<and> (\<forall>x\<in>set b. length x = nat (audioChannels ?s))"
    using fr(2) by (simp add: connected_fields)
  have room: "samplesAvailable ?s + int (length (concat first)) \<le> AUDIO_BUFFER_FRAMES - 1"
    by (simp add: av fr(1) AUDIO_BUFFER_FRAMES_def)
  from fillBatches_unread[OF ok live wf room] obtain s1 where
    fb: "fillBatches first ?s = Inr s1" and ok1: "ring_ok s1"
    and K1: "audioChannels s1 = 1" and rp1: "readPos s1 = 0"
    and un1: "unread s1 = concat first"
    by (auto simp: unread_def av connected_fields)
  have av1: "samplesAvailable s1 = AUDIO_BUFFER_FRAMES - 1"
    using available_unread[OF ok1] by (simp add: un1 fr(1) AUDIO_BUFFER_FRAMES_def)
  have wp1: "writePos s1 = 8191"
    using full_writePos[OF ok1 av1] by (simp add: rp1 AUDIO_BUFFER_FRAMES_def)
  have "maxFramesToPull s1 \<le> 0"
    by (simp add: maxFramesToPull_def writeSpace_def rp1 wp1 AUDIO_BUFFER_FRAMES_def)
  then have rej: "fillBatch [[1]] s1 = Inr ([], s1)" by (rule fill_rejected)
  have fill: "fillBatches (first @ [[[1]]]) ?s = Inr s1"
    by (simp add: fillBatches_append fb rej)
  have le: "0 + length (concat first) \<le> audioFrames ctx" by (simp add: fr(1) ctx_def)
  have played: "concat (map (\<lambda>i. frameWrites i (Suc 0) (concat first ! i)) [0..<8191])
      = map (\<lambda>n. AudioWrite n 0 1) [0..<8191]"
    by (rule singleton_writes) (simp add: fr(3) frameWrites_def)
  have "[8191..<8192] = [8191::nat]" by (simp add: upt_rec)
  then have silent: "concat (map (\<lambda>i. map (\<lambda>c. AudioWrite i c 0) [0..<1]) [8191..<8192])
      = [AudioWrite 8191 0 0]"
    by simp
  from renderLoop_drain[OF ok1 un1 le] obtain s' where
    "renderLoop ctx 0 s1 =
       Inr (concat (map (\<lambda>i. frameWrites (0 + i) (min (nat (audioChannels s1)) (audioOutChannels ctx))
                               (concat first ! i)) [0..<length (concat first)])
            @ concat (map (\<lambda>i. map (\<lambda>c. AudioWrite i c 0) [0..<audioOutChannels ctx])
                      [0 + length (concat first)..<audioFrames ctx]), s')"
    by blast
  then have "renderLoop ctx 0 s1 = Inr (map (\<lambda>n. AudioWrite n 0 1) [0..<8191] @ [AudioWrite 8191 0 0], s')"
    by (simp add: K1 fr(1) ctx_def played silent)
  then show "map_sum id fst (roundTrip \<lparr>audioFrames = 8192, audioOutChannels = 1\<rparr>
       (replicate 15 (replicate 512 [1]) @ [replicate 511 [1]] @ [[[1]]]) (connected_state 1))
     = Inr (map (\<lambda>n. AudioWrite n 0 1) [0..<8191] @ [AudioWrite 8191 0 0])"
    using fill unfolding first_def ctx_def by (simp add: roundTrip_def)
next
  define first :: "real list list list" where
    "first = replicate 15 (replicate 512 [1, 2]) @ [replicate 511 [1, 2]]"
  define ctx where "ctx = \<lparr>audioFrames = 8192, audioOutChannels = 2\<rparr>"
  note fr = offered_frames[of "[1::real, 2]", folded first_def]
  let ?s = "empty_at_5"
  have fields: "audioChannels ?s = 2" "readPos ?s = 5" "writePos ?s = 5"
    by (simp_all add: empty_at_5_def connected_fields)
  have ok: "ring_ok ?s"
    using ring_ok_connected[of 2] by (simp add: ring_ok_def empty_at_5_def AUDIO_BUFFER_FRAMES_def)
  have live: "audioInlet ?s = Live (audio_source 2)" by (simp add: empty_at_5_def connected_state_def)
  have av: "samplesAvailable ?s = 0" using ok by (simp add: samplesAvailable_def fields ring_ok_def)
  have wf: "\<forall>b\<in>set first. length b \<le> 512 \<and> (\<forall>x\<in>set b. length x = nat (audioChannels ?s))"
    using fr(2) by (simp add: fields)
  have room: "samplesAvailable ?s + int (length (concat first)) \<le> AUDIO_BUFFER_FRAMES - 1"
    by (simp add: av fr(1) AUDIO_BUFFER_FRAMES_def)
  from fillBatches_unread[OF ok live wf room] obtain s1 where
    fb: "fillBatches first ?s = Inr s1" and ok1: "ring_ok s1"
    and in1: "audioInlet s1 = Live (audio_source 2)"
    and K1: "audioChannels s1 = 2" and rp1: "readPos s1 = 5"
    and un1: "unread s1 = concat first"
    by (auto simp: unread_def av fields)
  have av1: "samplesAvailable s1 = AUDIO_BUFFER_FRAMES - 1"
    using available_unread[OF ok1] by (simp add: un1 fr(1) AUDIO_BUFFER_FRAMES_def)
  have wp1: "writePos s1 = 4"
    using full_writePos[OF ok1 av1] by (simp add: rp1 AUDIO_BUFFER_FRAMES_def)
  have sp: "0 < maxFramesToPull s1"
    by (simp add: maxFramesToPull_def writeSpace_def rp1 wp1 AUDIO_BUFFER_FRAMES_def)
  have len: "length [1::real, 2] = nat (audioChannels s1)" by (simp add: K1)
  from fill_one_frame[OF ok1 in1 len sp] obtain evs s2 where
    f2: "fillBatch [[1, 2]] s1 = Inr (evs, s2)" and ok2: "ring_ok s2"
    and rp2: "readPos s2 = 5" and wp2: "writePos s2 = 5"
    by (auto simp: rp1 wp1 AUDIO_BUFFER_FRAMES_def)
  have fill: "fillBatches (first @ [[[1, 2]]]) ?s = Inr s2"
    by (simp add: fillBatches_append fb f2)
  have "samplesAvailable s2 = 0" by (simp add: samplesAvailable_def rp2 wp2)
  then have idle: "\<not> (audioStreamActive s2 \<and> 0 < samplesAvailable s2)" by simp
  have two: "(\<lambda>i. map (\<lambda>c. AudioWrite i c 0) [0..<2]) = (\<lambda>n. [AudioWrite n 0 0, AudioWrite n 1 0])"
    by (rule ext) (simp add: numeral_2_eq_2)
  have "renderLoop ctx 0 s2 =
      Inr (concat (map (\<lambda>n. [AudioWrite n 0 0, AudioWrite n 1 0]) [0..<8192]), s2)"
    using renderLoop_silent[OF idle, of ctx 0] by (simp add: ctx_def two)
  then show "map_sum id fst (roundTrip \<lparr>audioFrames = 8192, audioOutChannels = 2\<rparr>
       (replicate 15 (replicate 512 [1, 2]) @ [replicate 511 [1, 2]] @ [[[1, 2]]]) empty_at_5)
     = Inr (concat (map (\<lambda>n. [AudioWrite n 0 0, AudioWrite n 1 0]) [0..<8192]))"
    using fill unfolding first_def ctx_def by (simp add: roundTrip_def)
qed

section \<open>Failures of the pull\<close>

lemma fill_exception:
  assumes "audioStreamActive s" "audioInlet s = Live info" "0 < audioChannels s"
    "audioChannels s \<le> MAX_CHANNELS" "0 < maxFramesToPull s"
  shows "fillAudioBuffer (PullThrows e) s = Inr ([Printf_FillError e], s\<lparr>audioStreamActive := False\<rparr>)"
  using assms by (simp add: fillAudioBuffer_def fillBody_def pull_chunk_multiplexed_def)

lemma pullOne_transient:
  assumes "i < length (streamInlets m)" "length (streamData m) = length (streamInlets m)"
    "length (streamNames m) = length (streamInlets m)" "streamInlets m ! i = Live info"
    "env i = SampleThrows OtherException"
  shows "pullOne env i m = Inr ([Printf_PullError (streamNames m ! i)], m)"
  using assms by (simp add: pullOne_def vector_at_def)

lemma pullLoop_transient:
  assumes "length (streamData m) = length (streamInlets m)"
    "length (streamNames m) = length (streamInlets m)"
    "\<forall>j<length (streamInlets m). (\<exists>info. streamInlets m ! j = Live info) \<and> env j = SampleThrows OtherException"
  shows "pullLoop env i m = Inr (map Printf_PullError (drop i (streamNames m)), m)"
  using assms
proof (induction "length (streamInlets m) - i" arbitrary: i)
  case 0
  then show ?case by (subst pullLoop.simps) simp
next
  case (Suc k)
  then have lt: "i < length (streamInlets m)" by simp
  then obtain info where live: "streamInlets m ! i = Live info" and thr: "env i = SampleThrows OtherException"
    using Suc.prems(3) by blast
  have one: "pullOne env i m = Inr ([Printf_PullError (streamNames m ! i)], m)"
    using lt Suc.prems(1,2) live thr by (simp add: pullOne_transient)
  have k: "k = length (streamInlets m) - Suc i" using Suc.hyps(2) by simp
  have ih: "pullLoop env (Suc i) m = Inr (map Printf_PullError (drop (Suc i) (streamNames m)), m)"
    by (rule Suc.hyps(1)[OF k Suc.prems])
  have dr: "drop i (streamNames m) = streamNames m ! i # drop (Suc i) (streamNames m)"
    using lt Suc.prems(2) by (simp add: Cons_nth_drop_Suc)
  show ?case by (subst pullLoop.simps) (simp add: lt one ih dr)
qed

lemma eraseClosed_all_live:
  "length ns = length ps \<Longrightarrow> length ds = length ps \<Longrightarrow> Null \<notin> set ps \<Longrightarrow>
   eraseClosed ps ns ds = Inr (ps, ns, ds)"
  by (induction ps ns ds rule: eraseClosed.induct) auto

lemma pullSamples_transient:
  assumes "streamsResolved m" "streamInlets m \<noteq> []"
    "length (streamData m) = length (streamInlets m)"
    "length (streamNames m) = length (streamInlets m)"
    "\<forall>j<length (streamInlets m). (\<exists>info. streamInlets m ! j = Live info) \<and> env j = SampleThrows OtherException"
  shows "pullSamples env m = Inr (map Printf_PullError (streamNames m), m)"
proof -
  have lp: "pullLoop env 0 m = Inr (map Printf_PullError (streamNames m), m)"
    using pullLoop_transient[OF assms(3,4,5), of 0] by simp
  have "Null \<notin> set (streamInlets m)"
  proof
    assume "Null \<in> set (streamInlets m)"
    then obtain j where "j < length (streamInlets m)" "streamInlets m ! j = Null"
      by (auto simp: in_set_conv_nth)
    then show False using assms(5) by auto
  qed
  then have er: "eraseClosed (streamInlets m) (streamNames m) (streamData m)
      = Inr (streamInlets m, streamNames m, streamData m)"
    using assms(3,4) by (intro eraseClosed_all_live) simp_all
  show ?thesis using assms(1,2) by (simp add: pullSamples_def lp er)
qed

lemma renderLoop_inactive:
  "\<not> audioStreamActive s \<Longrightarrow>
   renderLoop ctx 0 s =
     Inr (concat (map (\<lambda>n. map (\<lambda>c. AudioWrite n c 0) [0..<audioOutChannels ctx]) [0..<audioFrames ctx]), s)"
  by (rule renderLoop_silent) simp

lemma copyFrames_ok:
  "0 < audioChannels s \<Longrightarrow> audioChannels s \<le> MAX_CHANNELS \<Longrightarrow> 0 \<le> f \<Longrightarrow>
   framesPulled * audioChannels s \<le> PULL_BUFFER_SIZE \<Longrightarrow>
   0 \<le> writePos s \<and> writePos s < AUDIO_BUFFER_FRAMES \<Longrightarrow>
   \<exists>s'. copyFrames f framesPulled s = Inr s' \<and> audioChannels s' = audioChannels s
      \<and> readPos s' = readPos s \<and> audioStreamActive s' = audioStreamActive s
      \<and> audioInlet s' = audioInlet s
      \<and> 0 \<le> writePos s' \<and> writePos s' < AUDIO_BUFFER_FRAMES"
proof (induction f framesPulled s rule: copyFrames.induct)
  case (1 f framesPulled s)
  show ?case
  proof (cases "f < framesPulled")
    case False
    then show ?thesis using 1(2-) by (subst copyFrames.simps) simp
  next
    case True
    let ?K = "audioChannels s"
    have "(f + 1) * ?K \<le> framesPulled * ?K"
      using True 1(2) by (intro mult_right_mono) auto
    then have sz: "f * ?K + ?K \<le> PULL_BUFFER_SIZE" using 1(5) by (simp add: algebra_simps)
    let ?s1 = "s\<lparr>audioBuffer := putFrame (writePos s mod AUDIO_BUFFER_FRAMES) ?K
                             (\<lambda>j. pullBuffer s (f * ?K + j)) (audioBuffer s),
            writePos := (writePos s + 1) mod AUDIO_BUFFER_FRAMES\<rparr>"
    have pf: "pushFrame f s = Inr ?s1" by (rule pushFrame_result[OF 1(2,3,4) sz])
    have "\<exists>s'. copyFrames (f + 1) framesPulled ?s1 = Inr s' \<and> audioChannels s' = audioChannels ?s1
      \<and> readPos s' = readPos ?s1 \<and> audioStreamActive s' = audioStreamActive ?s1
      \<and> audioInlet s' = audioInlet ?s1
      \<and> 0 \<le> writePos s' \<and> writePos s' < AUDIO_BUFFER_FRAMES"
      by (rule 1(1)[OF True pf]) (use 1(2-) frames_pos in simp_all)
    then show ?thesis by (subst copyFrames.simps) (auto simp: True pf)
  qed
qed


lemma request_bounds:
  assumes "0 < audioChannels s" "audioChannels s \<le> MAX_CHANNELS"
  shows "maxFramesToPull s \<le> 512" "maxFramesToPull s * audioChannels s \<le> 4096"
proof -
  show a: "maxFramesToPull s \<le> 512" by (simp add: maxFramesToPull_def)
  have "maxFramesToPull s * audioChannels s \<le> 512 * audioChannels s"
    using a assms(1) by (intro mult_right_mono) auto
  then show "maxFramesToPull s * audioChannels s \<le> 4096"
    using assms(2) by (simp add: MAX_CHANNELS_def)
qed

lemma fill_pulled_total:
  assumes ok: "ring_ok s" and live: "audioInlet s = Live info"
  shows "\<exists>evs s'. fillAudioBuffer (Pulled samples stamps) s = Inr (evs, s') \<and> ring_ok s'
           \<and> audioInlet s' = audioInlet s"
proof -
  let ?K = "audioChannels s"
  let ?n = "maxFramesToPull s"
  have K: "0 < ?K" "?K \<le> MAX_CHANNELS" and act: "audioStreamActive s"
    and pos: "0 \<le> readPos s" "readPos s < AUDIO_BUFFER_FRAMES" "0 \<le> writePos s" "writePos s < AUDIO_BUFFER_FRAMES"
    using ok by (simp_all add: ring_ok_def)
  have guard: "\<not> (\<not> audioStreamActive s \<or> audioInlet s = Null \<or> ?K \<le> 0 \<or> ?K > MAX_CHANNELS)"
    using K act live by simp
  show ?thesis
  proof (cases "?n \<le> 0")
    case True
    then have "fillAudioBuffer (Pulled samples stamps) s = Inr ([], s)"
      using guard by (simp add: fillAudioBuffer_def fillBody_def)
    then show ?thesis using ok by simp
  next
    case False
    let ?data = "take (nat (?n * ?K)) samples"
    let ?ts = "take (nat ?n) stamps"
    have nK: "0 \<le> ?n * ?K" using False K by simp
    have "length ?data \<le> nat (?n * ?K)" by simp
    then have d: "int (length ?data) \<le> ?n * ?K" using nK by linarith
    have d2: "int (length ?data) \<le> 4096" using d request_bounds(2)[OF K] by linarith
    have "length ?ts \<le> nat ?n" by simp
    then have t2: "int (length ?ts) \<le> 512" using request_bounds(1)[OF K] False by linarith
    obtain pb where pb: "array_store PULL_BUFFER_SIZE (pullBuffer s) ?data = Inr pb"
      using d2 by (simp add: array_store_def PULL_BUFFER_SIZE_def MAX_CHANNELS_def)
    obtain tb where tb: "array_store TIMESTAMP_BUFFER_SIZE (timestampBuffer s) ?ts = Inr tb"
      using t2 by (simp add: array_store_def TIMESTAMP_BUFFER_SIZE_def)
    define s1 where "s1 = s\<lparr>pullBuffer := pb, timestampBuffer := tb\<rparr>"
    define nr where "nr = int (length ?data)"
    have pull: "pull_chunk_multiplexed (Pulled samples stamps) (?n * ?K) ?n s = Inr (nr, s1)"
      by (simp add: pull_chunk_multiplexed_def live pb tb s1_def nr_def del: length_take)
    have s1: "audioChannels s1 = ?K" "readPos s1 = readPos s" "writePos s1 = writePos s"
      "audioStreamActive s1" "audioInlet s1 = audioInlet s"
      using act by (simp_all add: s1_def)
    have ok1: "ring_ok s1" using ok by (simp add: ring_ok_def s1_def)
    define fp where "fp = nr div audioChannels s1"
    have "nr div ?K * ?K \<le> nr"
      using div_mult_mod_eq[of nr ?K] pos_mod_sign[of ?K nr] K(1) by linarith
    then have "fp * ?K \<le> nr" by (simp add: fp_def s1(1))
    then have fpsz: "fp * audioChannels s1 \<le> PULL_BUFFER_SIZE"
      using d2 by (simp add: PULL_BUFFER_SIZE_def MAX_CHANNELS_def nr_def s1(1) del: length_take)
    from copyFrames_ok[of s1 0 fp] K fpsz pos s1 obtain s2 where
      cf: "copyFrames 0 fp s1 = Inr s2" and K2: "audioChannels s2 = ?K"
      and rp2: "readPos s2 = readPos s" and act2: "audioStreamActive s2"
      and in2: "audioInlet s2 = audioInlet s"
      and wp2: "0 \<le> writePos s2" "writePos s2 < AUDIO_BUFFER_FRAMES"
      by auto
    have ok2: "ring_ok (s2\<lparr>reportCounter := reportCounter s2 + 1\<rparr>)"
      using K K2 rp2 act2 wp2 pos by (simp add: ring_ok_def)
    have body: "fillBody (Pulled samples stamps) s =
        (if fp > 0 then
           Inr (if (reportCounter s2 + 1) mod 1000 = 0
                then [Printf_BufferReport (samplesAvailable (s2\<lparr>reportCounter := reportCounter s2 + 1\<rparr>))
                        AUDIO_BUFFER_FRAMES]
                else [],
                s2\<lparr>reportCounter := reportCounter s2 + 1\<rparr>)
         else Inr ([], s1))"
      using False by (simp add: fillBody_def pull fp_def[symmetric] cf Let_def)
    show ?thesis
      using guard ok1 ok2 in2 s1(5) by (cases "fp > 0") (simp_all add: fillAudioBuffer_def body)
  qed
qed



section \<open>Channels written by a tick\<close>

text \<open>
  C10. A tick that pops a frame writes exactly the output channels below
  \<open>min audioChannels audioOutChannels\<close>, each with its sample of the frame at \<open>readPos\<close>, and
  nothing to any other channel; a tick with no frame available writes 0 to every output
  channel.
\<close>

theorem render_frame_channels:
  "(ring_ok s \<and> 0 < samplesAvailable s \<longrightarrow>
      (\<exists>evs. render_frame ctx n s =
                Inr (evs, s\<lparr>readPos := (readPos s + 1) mod AUDIO_BUFFER_FRAMES\<rparr>)
          \<and> evs = map (\<lambda>ch. AudioWrite n ch (audioBuffer s (readPos s * audioChannels s + int ch)))
                     [0..<min (nat (audioChannels s)) (audioOutChannels ctx)]
          \<and> (\<forall>m ch v. AudioWrite m ch v \<in> set evs \<longrightarrow>
                 m = n \<and> ch < nat (audioChannels s) \<and> ch < audioOutChannels ctx)))
   \<and> (\<not> (audioStreamActive s \<and> 0 < samplesAvailable s) \<longrightarrow>
        render_frame ctx n s = Inr (map (\<lambda>ch. AudioWrite n ch 0) [0..<audioOutChannels ctx], s))"
proof (intro conjI impI)
  assume a: "ring_ok s \<and> 0 < samplesAvailable s"
  let ?m = "min (nat (audioChannels s)) (audioOutChannels ctx)"
  let ?evs = "map (\<lambda>ch. AudioWrite n ch (audioBuffer s (readPos s * audioChannels s + int ch))) [0..<?m]"
  have fw: "frameWrites n ?m (slot s (readPos s)) = ?evs"
    unfolding frameWrites_def by (rule map_cong) (simp_all add: slot_nth)
  have "render_frame ctx n s = Inr (?evs, s\<lparr>readPos := (readPos s + 1) mod AUDIO_BUFFER_FRAMES\<rparr>)"
    using pop_step[of s ctx n] a fw by simp
  moreover have "\<forall>m ch v. AudioWrite m ch v \<in> set ?evs \<longrightarrow>
                 m = n \<and> ch < nat (audioChannels s) \<and> ch < audioOutChannels ctx"
    by auto
  ultimately show "\<exists>evs. render_frame ctx n s =
                Inr (evs, s\<lparr>readPos := (readPos s + 1) mod AUDIO_BUFFER_FRAMES\<rparr>)
          \<and> evs = ?evs
          \<and> (\<forall>m ch v. AudioWrite m ch v \<in> set evs \<longrightarrow>
                 m = n \<and> ch < nat (audioChannels s) \<and> ch < audioOutChannels ctx)"
    by blast
next
  assume "\<not> (audioStreamActive s \<and> 0 < samplesAvailable s)"
  then show "render_frame ctx n s = Inr (map (\<lambda>ch. AudioWrite n ch 0) [0..<audioOutChannels ctx], s)"
    by (rule silence_step)
qed

lemma ring_ok_one_buffered: "ring_ok one_buffered"
  by (simp add: ring_ok_def one_buffered_def connected_state_def idle_state_def
      MAX_CHANNELS_def AUDIO_BUFFER_FRAMES_def)

lemma one_buffered_fields:
  "samplesAvailable one_buffered = 1" "readPos one_buffered = 0" "audioChannels one_buffered = 1"
  "audioBuffer one_buffered i = 5" "audioStreamActive one_buffered"
  "audioInlet one_buffered = Live (audio_source 1)" "maxFramesToPull one_buffered = 512"
  by (simp_all add: one_buffered_def connected_state_def idle_state_def samplesAvailable_def
      maxFramesToPull_def writeSpace_def AUDIO_BUFFER_FRAMES_def)

text \<open>A mono frame on a stereo output: only channel 0 is written. An idle tick: both are silenced.\<close>

theorem render_frame_channels_witness:
  "ring_ok one_buffered \<and> 0 < samplesAvailable one_buffered
   \<and> render_frame \<lparr>audioFrames = 1, audioOutChannels = 2\<rparr> 0 one_buffered
       = Inr ([AudioWrite 0 0 5], one_buffered\<lparr>readPos := 1\<rparr>)
   \<and> \<not> (audioStreamActive idle_state \<and> 0 < samplesAvailable idle_state)
   \<and> render_frame \<lparr>audioFrames = 1, audioOutChannels = 2\<rparr> 0 idle_state
       = Inr ([AudioWrite 0 0 0, AudioWrite 0 1 0], idle_state)"
proof -
  let ?ctx = "\<lparr>audioFrames = 1, audioOutChannels = 2\<rparr>"
  have h: "ring_ok one_buffered \<and> 0 < samplesAvailable one_buffered"
    by (simp add: ring_ok_one_buffered one_buffered_fields)
  have i: "\<not> (audioStreamActive idle_state \<and> 0 < samplesAvailable idle_state)"
    by (simp add: idle_state_def)
  have pop: "render_frame ?ctx 0 one_buffered = Inr ([AudioWrite 0 0 5], one_buffered\<lparr>readPos := 1\<rparr>)"
    using render_frame_channels[of one_buffered ?ctx 0] h
    by (auto simp: one_buffered_fields AUDIO_BUFFER_FRAMES_def)
  have sil: "render_frame ?ctx 0 idle_state = Inr ([AudioWrite 0 0 0, AudioWrite 0 1 0], idle_state)"
    using render_frame_channels[of idle_state ?ctx 0] i
    by (simp add: upt_conv_Cons del: upt_Suc)
  show ?thesis using h i pop sil by simp
qed

section \<open>Discovery\<close>

lemma connectCandidate_cases:
  assumes "audioInlet s \<noteq> Dangling"
  shows "\<exists>evs s' ctl. connectCandidate lsl info s = Inr (evs, s', ctl)
      \<and> belaSampleRate s' = belaSampleRate s
      \<and> (\<forall>c. NewInlet c \<in> set evs \<or> OpenStream c \<in> set evs \<longrightarrow> c = info)
      \<and> (ctl = Continue \<longrightarrow> audioInlet s' = audioInlet s \<and> audioStreamActive s' = audioStreamActive s)
      \<and> (audioStreamActive s' \<and> \<not> audioStreamActive s \<longrightarrow> audioInlet s' = Live info)"
  using assms
  by (cases "audioInlet s"; cases "lsl info")
     (auto simp: connectCandidate_def releaseInlet_def Let_def)

lemma rateCompatible_bela:
  "belaSampleRate s' = belaSampleRate s \<Longrightarrow> rateCompatible c s' = rateCompatible c s"
  by (simp add: rateCompatible_def)

lemma resolveLoop_opens:
  "audioInlet s \<noteq> Dangling \<Longrightarrow>
   \<exists>evs s'. resolveLoop lsl results s = Inr (evs, s')
      \<and> belaSampleRate s' = belaSampleRate s
      \<and> (\<forall>c. NewInlet c \<in> set evs \<or> OpenStream c \<in> set evs \<longrightarrow>
             c \<in> set results \<and> name c = AUDIO_STREAM_NAME \<and> rateCompatible c s)
      \<and> (audioStreamActive s' \<and> \<not> audioStreamActive s \<longrightarrow>
             (\<exists>c\<in>set results. audioInlet s' = Live c \<and> name c = AUDIO_STREAM_NAME \<and> rateCompatible c s))"
proof (induction results arbitrary: s)
  case Nil
  then show ?case by simp
next
  case (Cons info rest)
  show ?case
  proof (cases "name info = AUDIO_STREAM_NAME")
    case False
    from Cons.IH[OF Cons.prems] obtain evs s' where
      r: "resolveLoop lsl rest s = Inr (evs, s')" "belaSampleRate s' = belaSampleRate s"
      "\<forall>c. NewInlet c \<in> set evs \<or> OpenStream c \<in> set evs \<longrightarrow>
             c \<in> set rest \<and> name c = AUDIO_STREAM_NAME \<and> rateCompatible c s"
      "audioStreamActive s' \<and> \<not> audioStreamActive s \<longrightarrow>
             (\<exists>c\<in>set rest. audioInlet s' = Live c \<and> name c = AUDIO_STREAM_NAME \<and> rateCompatible c s)"
      by blast
    show ?thesis
      using False r by (intro exI[where x=evs] exI[where x=s']) auto
  next
    case nm: True
    show ?thesis
    proof (cases "rateCompatible info s")
      case False
      from Cons.IH[OF Cons.prems] obtain evs s' where
        r: "resolveLoop lsl rest s = Inr (evs, s')" "belaSampleRate s' = belaSampleRate s"
        "\<forall>c. NewInlet c \<in> set evs \<or> OpenStream c \<in> set evs \<longrightarrow>
               c \<in> set rest \<and> name c = AUDIO_STREAM_NAME \<and> rateCompatible c s"
        "audioStreamActive s' \<and> \<not> audioStreamActive s \<longrightarrow>
               (\<exists>c\<in>set rest. audioInlet s' = Live c \<and> name c = AUDIO_STREAM_NAME \<and> rateCompatible c s)"
        by blast
      show ?thesis
        using nm False r
        by (intro exI[where x="Printf_RateMismatch (nominal_srate info) (belaSampleRate s) # evs"]
              exI[where x=s']) auto
    next
      case rc: True
      from connectCandidate_cases[OF Cons.prems, of lsl info] obtain evs s1 ctl where
        cc: "connectCandidate lsl info s = Inr (evs, s1, ctl)"
        and b1: "belaSampleRate s1 = belaSampleRate s"
        and ev1: "\<forall>c. NewInlet c \<in> set evs \<or> OpenStream c \<in> set evs \<longrightarrow> c = info"
        and ct1: "ctl = Continue \<longrightarrow> audioInlet s1 = audioInlet s \<and> audioStreamActive s1 = audioStreamActive s"
        and ac1: "audioStreamActive s1 \<and> \<not> audioStreamActive s \<longrightarrow> audioInlet s1 = Live info"
        by blast
      show ?thesis
      proof (cases ctl)
        case Break
        show ?thesis
          using nm rc cc Break b1 ev1 ac1
          by (intro exI[where x=evs] exI[where x=s1]) auto
      next
        case Continue
        then have d1: "audioInlet s1 \<noteq> Dangling" and a1: "audioStreamActive s1 = audioStreamActive s"
          using ct1 Cons.prems by simp_all
        from Cons.IH[OF d1] obtain evs' s' where
          r: "resolveLoop lsl rest s1 = Inr (evs', s')" "belaSampleRate s' = belaSampleRate s1"
          "\<forall>c. NewInlet c \<in> set evs' \<or> OpenStream c \<in> set evs' \<longrightarrow>
                 c \<in> set rest \<and> name c = AUDIO_STREAM_NAME \<and> rateCompatible c s1"
          "audioStreamActive s' \<and> \<not> audioStreamActive s1 \<longrightarrow>
                 (\<exists>c\<in>set rest. audioInlet s' = Live c \<and> name c = AUDIO_STREAM_NAME \<and> rateCompatible c s1)"
          by blast
        have rcs: "\<And>c. rateCompatible c s1 = rateCompatible c s"
          by (rule rateCompatible_bela[OF b1])
        show ?thesis
          using nm rc cc Continue b1 ev1 a1 r
          by (intro exI[where x="evs @ evs'"] exI[where x=s']) (auto simp: rcs)
      qed
    qed
  qed
qed

text \<open>A pass that activates a session has reset both ring indices (lines 142-143).\<close>

lemma connect_resets:
  assumes "\<not> audioStreamActive s" "connectCandidate lsl info s = Inr (evs, s', ctl)"
  shows "(audioStreamActive s' \<longrightarrow> readPos s' = 0 \<and> writePos s' = 0)
       \<and> (ctl = Continue \<longrightarrow> \<not> audioStreamActive s')"
  using assms
  by (cases "audioInlet s"; cases "lsl info")
     (auto simp: connectCandidate_def releaseInlet_def Let_def split: if_splits)

lemma resolveLoop_resets:
  "\<not> audioStreamActive s \<Longrightarrow> resolveLoop lsl results s = Inr (evs, s') \<Longrightarrow>
   audioStreamActive s' \<Longrightarrow> readPos s' = 0 \<and> writePos s' = 0"
proof (induction results arbitrary: s evs)
  case Nil
  then show ?case by simp
next
  case (Cons info rest)
  show ?case
  proof (cases "name info = AUDIO_STREAM_NAME \<and> rateCompatible info s")
    case False
    then obtain evs0 where "resolveLoop lsl rest s = Inr (evs0, s')"
      using Cons.prems(2) by (auto split: if_splits sum.splits)
    then show ?thesis using Cons.IH[OF Cons.prems(1) _ Cons.prems(3)] by blast
  next
    case True
    then obtain evs1 s1 ctl where cc: "connectCandidate lsl info s = Inr (evs1, s1, ctl)"
      using Cons.prems(2) by (auto split: sum.splits)
    from connect_resets[OF Cons.prems(1) cc]
    have r1: "audioStreamActive s1 \<longrightarrow> readPos s1 = 0 \<and> writePos s1 = 0"
      and c1: "ctl = Continue \<longrightarrow> \<not> audioStreamActive s1" by simp_all
    show ?thesis
    proof (cases ctl)
      case Break
      then have "s' = s1" using Cons.prems(2) True cc by simp
      then show ?thesis using r1 Cons.prems(3) by simp
    next
      case Continue
      then obtain evs0 where "resolveLoop lsl rest s1 = Inr (evs0, s')"
        using Cons.prems(2) True cc by (auto split: sum.splits)
      then show ?thesis using Cons.IH[OF _ _ Cons.prems(3)] c1 Continue by blast
    qed
  qed
qed

lemma reconnect_resets:
  assumes "\<not> audioStreamActive s" "resolveStreams lsl results s = Inr (evs, s')" "audioStreamActive s'"
  shows "readPos s' = 0 \<and> writePos s' = 0 \<and> samplesAvailable s' = 0"
proof -
  have "resolveLoop lsl results s = Inr (evs, s')"
    using assms by (auto simp: resolveStreams_def split: if_splits)
  from resolveLoop_resets[OF assms(1) this assms(3)]
  show ?thesis by (simp add: samplesAvailable_def)
qed

lemma resolveStreams_returns:
  "audioInlet s \<noteq> Dangling \<Longrightarrow> \<exists>evs s'. resolveStreams lsl results s = Inr (evs, s')"
  using resolveLoop_opens[of s lsl results] by (auto simp: resolveStreams_def)

text \<open>
  C8. In one discovery pass, every source for which an inlet is created or opened is one of
  the advertised sources, carries the configured name and has
  \<open>|nominal_rate - local_rate| < local_rate * 0.001\<close>; and a session that becomes active in the
  pass is connected to such a source. So a source at or beyond the tolerance is never opened.
  The comparison is the one of line 121, taken over the reals.
\<close>

theorem opens_only_rate_compatible:
  assumes "audioInlet s \<noteq> Dangling"
  shows "\<exists>evs s'. resolveStreams lsl results s = Inr (evs, s')
      \<and> (\<forall>c. NewInlet c \<in> set evs \<or> OpenStream c \<in> set evs \<longrightarrow>
             c \<in> set results \<and> name c = AUDIO_STREAM_NAME
             \<and> \<bar>nominal_srate c - belaSampleRate s\<bar> < belaSampleRate s * 0.001)
      \<and> (audioStreamActive s' \<and> \<not> audioStreamActive s \<longrightarrow>
             (\<exists>c\<in>set results. audioInlet s' = Live c \<and> name c = AUDIO_STREAM_NAME
                \<and> \<bar>nominal_srate c - belaSampleRate s\<bar> < belaSampleRate s * 0.001))"
proof (cases "resolver s \<and> results \<noteq> [] \<and> \<not> audioStreamActive s")
  case True
  then have "resolveStreams lsl results s = resolveLoop lsl results s"
    by (simp add: resolveStreams_def)
  then show ?thesis
    using resolveLoop_opens[OF assms, of lsl results] by (auto simp: rateCompatible_def)
next
  case False
  then have "resolveStreams lsl results s = Inr ([], s)
           \<or> resolveStreams lsl results s = Inr ([Printf_NoStreams], s)"
    by (auto simp: resolveStreams_def)
  then show ?thesis by auto
qed

text \<open>
  The two ways the loop rejects a name-matching, rate-compatible candidate. When its channel
  count is not in \<open>1..MAX_CHANNELS\<close>, the failure is logged, the session flag is untouched and
  the loop goes on with the remaining candidates (line 127). When creating or opening the
  inlet throws, the failure is logged and the session flag is untouched, and control reaches
  the \<open>break\<close> of line 153: the result is the same as if no candidate followed.
\<close>

lemma candidate_rejections:
  assumes "name info = AUDIO_STREAM_NAME" "rateCompatible info s" "audioInlet s \<noteq> Dangling"
  shows "(channel_count info \<le> 0 \<or> MAX_CHANNELS < channel_count info \<longrightarrow>
           resolveLoop lsl (info # rest) s =
             map_sum id (\<lambda>(evs, s'). (Printf_InvalidChannels (channel_count info) MAX_CHANNELS # evs, s'))
               (resolveLoop lsl rest (s\<lparr>audioChannels := channel_count info\<rparr>)))
       \<and> (0 < channel_count info \<and> channel_count info \<le> MAX_CHANNELS \<and> lsl info \<noteq> Opened \<longrightarrow>
           (\<exists>evs e s'. resolveLoop lsl (info # rest) s = Inr (evs @ [Printf_CreateError e], s')
              \<and> audioStreamActive s' = audioStreamActive s
              \<and> (\<forall>c. NewInlet c \<in> set evs \<or> OpenStream c \<in> set evs \<longrightarrow> c = info))
           \<and> resolveLoop lsl (info # rest) s = resolveLoop lsl [info] s)"
proof (intro conjI impI)
  assume bad: "channel_count info \<le> 0 \<or> MAX_CHANNELS < channel_count info"
  then have cc: "connectCandidate lsl info s =
      Inr ([Printf_InvalidChannels (channel_count info) MAX_CHANNELS],
           s\<lparr>audioChannels := channel_count info\<rparr>, Continue)"
    by (auto simp: connectCandidate_def Let_def)
  show "resolveLoop lsl (info # rest) s =
             map_sum id (\<lambda>(evs, s'). (Printf_InvalidChannels (channel_count info) MAX_CHANNELS # evs, s'))
               (resolveLoop lsl rest (s\<lparr>audioChannels := channel_count info\<rparr>))"
    using assms(1,2) cc
    by (cases "resolveLoop lsl rest (s\<lparr>audioChannels := channel_count info\<rparr>)") auto
next
  assume ok: "0 < channel_count info \<and> channel_count info \<le> MAX_CHANNELS \<and> lsl info \<noteq> Opened"
  have "\<exists>evs e s'. connectCandidate lsl info s = Inr (evs @ [Printf_CreateError e], s', Break)
      \<and> audioStreamActive s' = audioStreamActive s
      \<and> (\<forall>c. NewInlet c \<in> set evs \<or> OpenStream c \<in> set evs \<longrightarrow> c = info)"
    using ok assms(3)
    by (cases "audioInlet s"; cases "lsl info")
       (auto simp: connectCandidate_def releaseInlet_def Let_def)
  then obtain evs e s' where
    cc: "connectCandidate lsl info s = Inr (evs @ [Printf_CreateError e], s', Break)"
    and rest: "audioStreamActive s' = audioStreamActive s"
      "\<forall>c. NewInlet c \<in> set evs \<or> OpenStream c \<in> set evs \<longrightarrow> c = info"
    by blast
  have r: "\<And>xs. resolveLoop lsl (info # xs) s = Inr (evs @ [Printf_CreateError e], s')"
    using assms(1,2) cc by simp
  show "\<exists>evs e s'. resolveLoop lsl (info # rest) s = Inr (evs @ [Printf_CreateError e], s')
              \<and> audioStreamActive s' = audioStreamActive s
              \<and> (\<forall>c. NewInlet c \<in> set evs \<or> OpenStream c \<in> set evs \<longrightarrow> c = info)"
    using r rest by blast
  show "resolveLoop lsl (info # rest) s = resolveLoop lsl [info] s"
    by (simp only: r)
qed

lemmas scenario_defs =
  idle_state_def connected_state_def audio_source_def source_48k_def flaky_transport_def
  AUDIO_STREAM_NAME_def MAX_CHANNELS_def rateCompatible_def connectCandidate_def releaseInlet_def
  resolveStreams_def

text \<open>A nine-channel source followed by a good one, and a source that fails to open followed by a good one.\<close>

lemma candidate_rejections_instances:
  "resolveLoop flaky_transport [audio_source 9, audio_source 1] idle_state =
     Inr ([Printf_InvalidChannels 9 8, NewInlet (audio_source 1), OpenStream (audio_source 1),
           Printf_Connected 1 (FloatOf 44100)], connected_state 1)
   \<and> resolveLoop flaky_transport [audio_source 2, audio_source 1] idle_state =
     Inr ([NewInlet (audio_source 2), OpenStream (audio_source 2), Printf_CreateError OtherException],
          idle_state\<lparr>audioChannels := 2, audioSampleRate := FloatOf 44100, audioInlet := Live (audio_source 2)\<rparr>)
   \<and> resolveLoop flaky_transport [audio_source 2, audio_source 1] idle_state =
       resolveLoop flaky_transport [audio_source 2] idle_state"
  using candidate_rejections[of "audio_source 9" idle_state flaky_transport "[audio_source 1]"]
    candidate_rejections[of "audio_source 2" idle_state flaky_transport "[audio_source 1]"]
  by (simp add: scenario_defs)

text \<open>
  C7, at its failing input. A source whose \<open>open_stream\<close> throws is advertised ahead of a
  source that opens. The pass logs the failure and ends at the \<open>break\<close> of line 153: the
  second source is never tried and the session stays absent, although that source is opened
  when it is advertised alone, and although a first candidate rejected for its channel count
  (line 127) or its rate does let the pass go on to it. The claim has the loop continue
  scanning after an open failure as well.
\<close>

theorem open_failure_stops_scan:
  "resolveStreams flaky_transport [audio_source 2, audio_source 1] idle_state =
     Inr ([NewInlet (audio_source 2), OpenStream (audio_source 2), Printf_CreateError OtherException],
          idle_state\<lparr>audioChannels := 2, audioSampleRate := FloatOf 44100, audioInlet := Live (audio_source 2)\<rparr>)
   \<and> resolveStreams flaky_transport [audio_source 1] idle_state =
     Inr ([NewInlet (audio_source 1), OpenStream (audio_source 1), Printf_Connected 1 (FloatOf 44100)],
          connected_state 1)
   \<and> resolveStreams flaky_transport [audio_source 9, audio_source 1] idle_state =
     Inr ([Printf_InvalidChannels 9 8, NewInlet (audio_source 1), OpenStream (audio_source 1),
           Printf_Connected 1 (FloatOf 44100)], connected_state 1)
   \<and> resolveStreams flaky_transport [source_48k, audio_source 1] idle_state =
     Inr ([Printf_RateMismatch 48000 44100, NewInlet (audio_source 1), OpenStream (audio_source 1),
           Printf_Connected 1 (FloatOf 44100)], connected_state 1)"
  by (simp add: scenario_defs)

text \<open>A 48 kHz source is passed over, the 44.1 kHz source after it is opened.\<close>

theorem opens_only_rate_compatible_witness:
  "audioInlet idle_state \<noteq> Dangling
   \<and> resolveStreams flaky_transport [source_48k, audio_source 1] idle_state =
       Inr ([Printf_RateMismatch 48000 44100, NewInlet (audio_source 1), OpenStream (audio_source 1),
             Printf_Connected 1 (FloatOf 44100)], connected_state 1)
   \<and> \<not> \<bar>nominal_srate source_48k - belaSampleRate idle_state\<bar> < belaSampleRate idle_state * 0.001
   \<and> \<bar>nominal_srate (audio_source 1) - belaSampleRate idle_state\<bar> < belaSampleRate idle_state * 0.001"
proof -
  have h: "audioInlet idle_state \<noteq> Dangling" by (simp add: idle_state_def)
  have run: "resolveStreams flaky_transport [source_48k, audio_source 1] idle_state =
       Inr ([Printf_RateMismatch 48000 44100, NewInlet (audio_source 1), OpenStream (audio_source 1),
             Printf_Connected 1 (FloatOf 44100)], connected_state 1)"
    by (simp add: scenario_defs)
  from opens_only_rate_compatible[OF h, of flaky_transport "[source_48k, audio_source 1]"]
  have ok: "\<bar>nominal_srate (audio_source 1) - belaSampleRate idle_state\<bar> < belaSampleRate idle_state * 0.001"
    unfolding run by auto
  have bad: "\<not> \<bar>nominal_srate source_48k - belaSampleRate idle_state\<bar> < belaSampleRate idle_state * 0.001"
    by (simp add: source_48k_def idle_state_def)
  show ?thesis using h run ok bad by simp
qed

section \<open>Instances\<close>

lemma connected_guard:
  "audioStreamActive (connected_state 2)" "audioInlet (connected_state 2) = Live (audio_source 2)"
  "0 < audioChannels (connected_state 2)" "audioChannels (connected_state 2) \<le> MAX_CHANNELS"
  "0 < maxFramesToPull (connected_state 2)"
  by (simp_all add: connected_state_def idle_state_def MAX_CHANNELS_def maxFramesToPull_def
      writeSpace_def AUDIO_BUFFER_FRAMES_def)

text \<open>
  C5, as amended. In \<open>fillAudioBuffer\<close> every exception of the pull, loss or not, is caught:
  the invocation ends without touching the buffer, the error is logged, nothing propagates,
  and the session is marked not active. It is \<open>pullSamples\<close> of the multi-inlet variant
  that keeps going after a non-loss exception: when every inlet's pull raises one, each is
  logged and all inlets, names and data stay as they were.
\<close>

theorem pull_exception_handling:
  assumes "audioStreamActive s" "audioInlet s = Live info" "0 < audioChannels s"
    "audioChannels s \<le> MAX_CHANNELS" "0 < maxFramesToPull s"
    and "streamsResolved m" "streamInlets m \<noteq> []"
    "length (streamData m) = length (streamInlets m)"
    "length (streamNames m) = length (streamInlets m)"
    "\<forall>j<length (streamInlets m).
        (\<exists>info. streamInlets m ! j = Live info) \<and> env j = SampleThrows OtherException"
  shows "fillAudioBuffer (PullThrows e) s = Inr ([Printf_FillError e], s\<lparr>audioStreamActive := False\<rparr>)
       \<and> pullSamples env m = Inr (map Printf_PullError (streamNames m), m)"
  using fill_exception[OF assms(1-5)] pullSamples_transient[OF assms(6-10)] by simp

text \<open>A stereo session whose pull throws, and a single open inlet whose pull throws.\<close>

theorem pull_exception_handling_witness:
  "audioStreamActive (connected_state 2) \<and> audioInlet (connected_state 2) = Live (audio_source 2)
   \<and> 0 < maxFramesToPull (connected_state 2)
   \<and> fillAudioBuffer (PullThrows LostError) (connected_state 2) =
       Inr ([Printf_FillError LostError], (connected_state 2)\<lparr>audioStreamActive := False\<rparr>)
   \<and> pullSamples always_transient one_inlet = Inr ([Printf_PullError ''audio''], one_inlet)"
proof -
  have m: "streamsResolved one_inlet" "streamInlets one_inlet \<noteq> []"
    "length (streamData one_inlet) = length (streamInlets one_inlet)"
    "length (streamNames one_inlet) = length (streamInlets one_inlet)"
    "\<forall>j<length (streamInlets one_inlet).
        (\<exists>info. streamInlets one_inlet ! j = Live info) \<and> always_transient j = SampleThrows OtherException"
    by (simp_all add: one_inlet_def always_transient_def)
  have n: "map Printf_PullError (streamNames one_inlet) = [Printf_PullError ''audio'']"
    by (simp add: one_inlet_def)
  show ?thesis
    using pull_exception_handling[OF connected_guard m, of LostError] connected_guard
    by (simp add: n)
qed

text \<open>
  C5 as stated fails on the fill task: after a non-loss exception the session that was active
  is not active any more.
\<close>

theorem fill_transient_error_counterexample:
  "fillAudioBuffer (PullThrows OtherException) (connected_state 2) =
     Inr ([Printf_FillError OtherException], (connected_state 2)\<lparr>audioStreamActive := False\<rparr>)
   \<and> audioStreamActive (connected_state 2)
   \<and> \<not> audioStreamActive ((connected_state 2)\<lparr>audioStreamActive := False\<rparr>)"
  using fill_exception[OF connected_guard, of OtherException] connected_guard(1) by simp

text \<open>
  C6, as amended. Once a failed pull has marked the session lost, the render step writes
  silence on every output channel of every tick of the next block and leaves \<open>readPos\<close>, the
  buffer and everything else untouched: frames still in the ring buffer are not played. Every
  discovery pass run from that state returns, and one that makes a session active again has
  set both indices to 0, so the frames left over are dropped: nothing is available and the
  queue of unread frames is empty.
\<close>

theorem lost_session_plays_silence:
  assumes "audioStreamActive s" "audioInlet s = Live info" "0 < audioChannels s"
    "audioChannels s \<le> MAX_CHANNELS" "0 < maxFramesToPull s"
  shows "andThen (fillAudioBuffer (PullThrows e) s) (renderLoop ctx 0) =
     Inr (Printf_FillError e #
            concat (map (\<lambda>n. map (\<lambda>c. AudioWrite n c 0) [0..<audioOutChannels ctx]) [0..<audioFrames ctx]),
          s\<lparr>audioStreamActive := False\<rparr>)
   \<and> (\<forall>lsl results. \<exists>evs s'.
          resolveStreams lsl results (s\<lparr>audioStreamActive := False\<rparr>) = Inr (evs, s')
          \<and> (audioStreamActive s' \<longrightarrow>
                readPos s' = 0 \<and> writePos s' = 0 \<and> samplesAvailable s' = 0 \<and> unread s' = []))"
proof (intro conjI allI)
  show "andThen (fillAudioBuffer (PullThrows e) s) (renderLoop ctx 0) =
     Inr (Printf_FillError e #
            concat (map (\<lambda>n. map (\<lambda>c. AudioWrite n c 0) [0..<audioOutChannels ctx]) [0..<audioFrames ctx]),
          s\<lparr>audioStreamActive := False\<rparr>)"
    by (simp add: andThen_def fill_exception[OF assms] renderLoop_inactive)
next
  fix lsl results
  let ?s = "s\<lparr>audioStreamActive := False\<rparr>"
  have nd: "audioInlet ?s \<noteq> Dangling" using assms(2) by simp
  from resolveStreams_returns[OF nd, of lsl results] obtain evs s' where
    r: "resolveStreams lsl results ?s = Inr (evs, s')" by blast
  have "audioStreamActive s' \<longrightarrow>
          readPos s' = 0 \<and> writePos s' = 0 \<and> samplesAvailable s' = 0 \<and> unread s' = []"
    using reconnect_resets[OF _ r] by (auto simp: unread_def)
  then show "\<exists>evs s'. resolveStreams lsl results ?s = Inr (evs, s')
          \<and> (audioStreamActive s' \<longrightarrow>
                readPos s' = 0 \<and> writePos s' = 0 \<and> samplesAvailable s' = 0 \<and> unread s' = [])"
    using r by blast
qed

text \<open>
  A mono session with one buffered frame, lost, then a block of two ticks, then a pass that
  reconnects.
\<close>

theorem lost_session_plays_silence_witness:
  "audioStreamActive one_buffered \<and> audioInlet one_buffered = Live (audio_source 1)
   \<and> 0 < maxFramesToPull one_buffered
   \<and> andThen (fillAudioBuffer (PullThrows LostError) one_buffered)
        (renderLoop \<lparr>audioFrames = 2, audioOutChannels = 1\<rparr> 0) =
       Inr ([Printf_FillError LostError, AudioWrite 0 0 0, AudioWrite 1 0 0],
            one_buffered\<lparr>audioStreamActive := False\<rparr>)
   \<and> resolveStreams flaky_transport [audio_source 1] (one_buffered\<lparr>audioStreamActive := False\<rparr>) =
       Inr ([CloseStream, DeleteInlet, NewInlet (audio_source 1), OpenStream (audio_source 1),
             Printf_Connected 1 (FloatOf 44100)],
            one_buffered\<lparr>writePos := 0\<rparr>)
   \<and> samplesAvailable (one_buffered\<lparr>writePos := 0\<rparr>) = 0"
proof -
  have g: "audioStreamActive one_buffered" "audioInlet one_buffered = Live (audio_source 1)"
    "0 < audioChannels one_buffered" "audioChannels one_buffered \<le> MAX_CHANNELS"
    "0 < maxFramesToPull one_buffered"
    by (simp_all add: one_buffered_fields MAX_CHANNELS_def)
  have pass: "resolveStreams flaky_transport [audio_source 1] (one_buffered\<lparr>audioStreamActive := False\<rparr>) =
       Inr ([CloseStream, DeleteInlet, NewInlet (audio_source 1), OpenStream (audio_source 1),
             Printf_Connected 1 (FloatOf 44100)],
            one_buffered\<lparr>writePos := 0\<rparr>)"
    by (simp add: scenario_defs one_buffered_def)
  have act: "audioStreamActive (one_buffered\<lparr>writePos := 0\<rparr>)" using g(1) by simp
  from lost_session_plays_silence[OF g, of LostError "\<lparr>audioFrames = 2, audioOutChannels = 1\<rparr>"]
  have blk: "andThen (fillAudioBuffer (PullThrows LostError) one_buffered)
        (renderLoop \<lparr>audioFrames = 2, audioOutChannels = 1\<rparr> 0) =
       Inr ([Printf_FillError LostError, AudioWrite 0 0 0, AudioWrite 1 0 0],
            one_buffered\<lparr>audioStreamActive := False\<rparr>)"
    and rst: "\<exists>evs s'. resolveStreams flaky_transport [audio_source 1]
                 (one_buffered\<lparr>audioStreamActive := False\<rparr>) = Inr (evs, s')
          \<and> (audioStreamActive s' \<longrightarrow>
                readPos s' = 0 \<and> writePos s' = 0 \<and> samplesAvailable s' = 0 \<and> unread s' = [])"
    by (simp_all add: upt_conv_Cons del: upt_Suc)
  have "samplesAvailable (one_buffered\<lparr>writePos := 0\<rparr>) = 0"
    using rst act unfolding pass by simp
  then show ?thesis using g blk pass by simp
qed

text \<open>
  C6 as stated fails: with one unread frame of value 5 in the buffer, the tick right after
  the loss writes 0, not 5, and the frame stays where it was.
\<close>

theorem buffered_frame_not_drained:
  "samplesAvailable one_buffered = 1 \<and> slot one_buffered 0 = [5]
   \<and> andThen (fillAudioBuffer (PullThrows LostError) one_buffered)
        (render_frame \<lparr>audioFrames = 1, audioOutChannels = 1\<rparr> 0) =
       Inr ([Printf_FillError LostError, AudioWrite 0 0 0],
            one_buffered\<lparr>audioStreamActive := False\<rparr>)"
proof -
  have g: "audioStreamActive one_buffered" "audioInlet one_buffered = Live (audio_source 1)"
    "0 < audioChannels one_buffered" "audioChannels one_buffered \<le> MAX_CHANNELS"
    "0 < maxFramesToPull one_buffered"
    by (simp_all add: one_buffered_fields MAX_CHANNELS_def)
  have sl: "slot one_buffered 0 = [5]"
    by (simp add: slot_def one_buffered_fields)
  show ?thesis
    by (simp add: andThen_def fill_exception[OF g] silence_step sl one_buffered_fields)
qed


section \<open>The session invariant\<close>

text \<open>
  \<open>session_inv\<close> holds after \<open>setup\<close> and is kept by a fill invocation, by an output tick
  and by a discovery pass that returns; the first two always return from a state that
  satisfies it.
\<close>

lemma session_inv_idle: "session_inv idle_state"
  by (simp add: session_inv_def idle_state_def AUDIO_BUFFER_FRAMES_def)

lemma session_inv_ring_ok:
  "session_inv s \<Longrightarrow> audioStreamActive s \<Longrightarrow> ring_ok s \<and> (\<exists>info. audioInlet s = Live info)"
  by (cases "audioInlet s") (auto simp: session_inv_def ring_ok_def)

lemma session_inv_fill:
  assumes "session_inv s"
  shows "\<exists>evs s'. fillAudioBuffer pull s = Inr (evs, s') \<and> session_inv s'"
proof (cases "\<not> audioStreamActive s \<or> audioInlet s = Null \<or> audioChannels s \<le> 0
         \<or> audioChannels s > MAX_CHANNELS")
  case True
  then have "fillAudioBuffer pull s = Inr ([], s)" by (simp add: fillAudioBuffer_def)
  then show ?thesis using assms by simp
next
  case False
  then have act: "audioStreamActive s" by simp
  from session_inv_ring_ok[OF assms act] obtain info where
    ok: "ring_ok s" and live: "audioInlet s = Live info" by blast
  have K: "0 < audioChannels s" "audioChannels s \<le> MAX_CHANNELS" using ok by (simp_all add: ring_ok_def)
  show ?thesis
  proof (cases pull)
    case (PullThrows e)
    have lost: "session_inv (s\<lparr>audioStreamActive := False\<rparr>)"
      using assms by (simp add: session_inv_def)
    show ?thesis
    proof (cases "0 < maxFramesToPull s")
      case True
      then show ?thesis using fill_exception[OF act live K True] PullThrows lost by simp
    next
      case no: False
      then have "fillAudioBuffer pull s = Inr ([], s)"
        using False by (simp add: fillAudioBuffer_def fillBody_def)
      then show ?thesis using assms by simp
    qed
  next
    case (Pulled samples stamps)
    from fill_pulled_total[OF ok live, of samples stamps] obtain evs s' where
      r: "fillAudioBuffer (Pulled samples stamps) s = Inr (evs, s')" and ok': "ring_ok s'"
      and "audioInlet s' = audioInlet s"
      by blast
    then have "session_inv s'"
      using live by (simp add: session_inv_def ring_ok_def)
    then show ?thesis using r Pulled by simp
  qed
qed

lemma session_inv_render:
  assumes "session_inv s"
  shows "\<exists>evs s'. render_frame ctx n s = Inr (evs, s') \<and> session_inv s'"
proof (cases "audioStreamActive s \<and> 0 < samplesAvailable s")
  case True
  then have ok: "ring_ok s" using session_inv_ring_ok[OF assms] by simp
  have "session_inv (s\<lparr>readPos := (readPos s + 1) mod AUDIO_BUFFER_FRAMES\<rparr>)"
    using assms frames_pos by (simp add: session_inv_def)
  then show ?thesis using pop_step[OF ok, of ctx n] True by simp
next
  case False
  then show ?thesis using silence_step[of s ctx n] assms by simp
qed

lemma session_inv_connect:
  assumes "session_inv s" "\<not> audioStreamActive s" "connectCandidate lsl info s = Inr (evs, s', ctl)"
  shows "session_inv s' \<and> (ctl = Continue \<longrightarrow> \<not> audioStreamActive s')"
  using assms
  by (cases "audioInlet s"; cases "lsl info")
     (auto simp: connectCandidate_def releaseInlet_def Let_def session_inv_def AUDIO_BUFFER_FRAMES_def
           split: if_splits)

lemma session_inv_resolveLoop:
  "session_inv s \<Longrightarrow> \<not> audioStreamActive s \<Longrightarrow> resolveLoop lsl results s = Inr (evs, s')
   \<Longrightarrow> session_inv s'"
proof (induction results arbitrary: s evs)
  case Nil
  then show ?case by simp
next
  case (Cons info rest)
  show ?case
  proof (cases "name info = AUDIO_STREAM_NAME \<and> rateCompatible info s")
    case False
    then obtain evs0 where "resolveLoop lsl rest s = Inr (evs0, s')"
      using Cons.prems(3) by (auto split: if_splits sum.splits)
    then show ?thesis using Cons.IH[OF Cons.prems(1,2)] by blast
  next
    case True
    then obtain evs1 s1 ctl where cc: "connectCandidate lsl info s = Inr (evs1, s1, ctl)"
      using Cons.prems(3) by (auto split: sum.splits)
    from session_inv_connect[OF Cons.prems(1,2) cc]
    have i1: "session_inv s1" and c1: "ctl = Continue \<longrightarrow> \<not> audioStreamActive s1" by simp_all
    show ?thesis
    proof (cases ctl)
      case Break
      then have "s' = s1" using Cons.prems(3) True cc by simp
      then show ?thesis using i1 by simp
    next
      case Continue
      then obtain evs0 where "resolveLoop lsl rest s1 = Inr (evs0, s')"
        using Cons.prems(3) True cc by (auto split: sum.splits)
      then show ?thesis using Cons.IH[OF i1] c1 Continue by blast
    qed
  qed
qed

lemma session_inv_resolve:
  "session_inv s \<Longrightarrow> resolveStreams lsl results s = Inr (evs, s') \<Longrightarrow> session_inv s'"
  using session_inv_resolveLoop[of s lsl results evs s']
  by (auto simp: resolveStreams_def split: if_splits)

end
